theory Spec2Isabelle
  imports Main "HOL-Library.Word" "HOL-Library.Char_ord" "HOL-Library.List_Lexorder"
    "HOL-Library.AList"
begin

section \<open>The logrus-gce formatter (gceformatter.go)\<close>

text \<open>
  A shallow embedding of package \<open>logrusgce\<close>: the severity table, the skip-depth resolver
  \<open>getSkipLevel\<close> with its cache \<open>stackSkips\<close>, and \<open>Format\<close>. The Go runtime's stack
  inspection, \<open>time.Time.Format\<close> and \<open>encoding/json\<close> are libraries outside the
  repository; they are modelled here as far as \<open>Format\<close> uses them.
\<close>

subsection \<open>Levels and severities\<close>

text \<open>
  \<open>logrus.Level\<close> is declared \<open>type Level uint32\<close>, with the constants
  \<open>PanicLevel = iota\<close>, \<open>FatalLevel\<close>, \<open>ErrorLevel\<close>, \<open>WarnLevel\<close>, \<open>InfoLevel\<close>,
  \<open>DebugLevel\<close>, \<open>TraceLevel\<close>. An entry can carry any value of the type.
\<close>

type_synonym Level = "32 word"

definition PanicLevel :: Level where "PanicLevel = 0"
definition FatalLevel :: Level where "FatalLevel = 1"
definition ErrorLevel :: Level where "ErrorLevel = 2"
definition WarnLevel :: Level where "WarnLevel = 3"
definition InfoLevel :: Level where "InfoLevel = 4"
definition DebugLevel :: Level where "DebugLevel = 5"
definition TraceLevel :: Level where "TraceLevel = 6"

lemmas Level_defs = PanicLevel_def FatalLevel_def ErrorLevel_def WarnLevel_def
  InfoLevel_def DebugLevel_def TraceLevel_def

text \<open>\<open>type severity string\<close> and its eight constants.\<close>

type_synonym severity = string

definition severityDEBUG :: severity where "severityDEBUG = ''DEBUG''"
definition severityINFO :: severity where "severityINFO = ''INFO''"
definition severityNOTICE :: severity where "severityNOTICE = ''NOTICE''"
definition severityWARNING :: severity where "severityWARNING = ''WARNING''"
definition severityERROR :: severity where "severityERROR = ''ERROR''"
definition severityCRITICAL :: severity where "severityCRITICAL = ''CRITICAL''"
definition severityALERT :: severity where "severityALERT = ''ALERT''"
definition severityEMERGENCY :: severity where "severityEMERGENCY = ''EMERGENCY''"

lemmas severity_defs = severityDEBUG_def severityINFO_def severityNOTICE_def
  severityWARNING_def severityERROR_def severityCRITICAL_def severityALERT_def
  severityEMERGENCY_def

definition levelsLogrusToGCE :: "Level \<rightharpoonup> severity" where
  "levelsLogrusToGCE =
     [DebugLevel \<mapsto> severityDEBUG,
      InfoLevel \<mapsto> severityINFO,
      WarnLevel \<mapsto> severityWARNING,
      ErrorLevel \<mapsto> severityERROR,
      FatalLevel \<mapsto> severityCRITICAL,
      PanicLevel \<mapsto> severityALERT]"

text \<open>
  The index expression \<open>levelsLogrusToGCE[entry.Level]\<close>: a Go map read of a missing key
  yields the zero value of the element type, here the empty string.
\<close>

definition severity_index :: "Level \<Rightarrow> severity" where
  "severity_index l = (case levelsLogrusToGCE l of Some s \<Rightarrow> s | None \<Rightarrow> [])"

subsection \<open>The runtime's view of the call stack\<close>

text \<open>
  A frame is what \<open>runtime.Caller\<close> reports of one activation: program counter, file and
  line. \<open>runtime.FuncForPC\<close> maps a program counter to its function, or to \<open>nil\<close>; the
  method \<open>Name\<close> of a \<open>nil\<close> function is the empty string, and no function contains
  program counter 0. One program counter stands for a frame both in \<open>runtime.Callers\<close>
  and in \<open>runtime.Caller\<close>. Inlining is not modelled.
\<close>

type_synonym uintptr = "64 word"

record frame =
  frame_pc :: uintptr
  frame_file :: string
  frame_line :: int

record runtime =
  stack :: "frame list"
  funcs :: "uintptr \<rightharpoonup> string"
  frame_getSkipLevel :: frame
  frame_Callers :: frame

text \<open>
  \<open>stack\<close> is the goroutine's stack while \<open>Format\<close> runs, innermost first: its head is the
  frame of \<open>Format\<close> itself, then the caller of \<open>Format\<close>, and so on.
  \<open>frame_getSkipLevel\<close> and \<open>frame_Callers\<close> are the two frames on top of it while
  \<open>getSkipLevel\<close> is inside \<open>runtime.Callers\<close>.
\<close>

definition FuncForPC :: "runtime \<Rightarrow> uintptr \<Rightarrow> string option" where
  "FuncForPC rt p = (if p = 0 then None else funcs rt p)"

definition Func_Name :: "string option \<Rightarrow> string" where
  "Func_Name f = (case f of None \<Rightarrow> [] | Some n \<Rightarrow> n)"

text \<open>
  \<open>runtime.Callers(skip, buf)\<close> on the stack \<open>stk\<close> whose head is the frame of
  \<open>runtime.Callers\<close> itself: it writes the program counters of the frames from index
  \<open>skip\<close> on into \<open>buf\<close>, at most \<open>len(buf)\<close> of them. The slots it does not fill keep
  the zero that \<open>make([]uintptr, n)\<close> put there. The result is the buffer.
\<close>

definition runtime_Callers :: "frame list \<Rightarrow> nat \<Rightarrow> nat \<Rightarrow> uintptr list" where
  "runtime_Callers stk skip n =
     (let pcs = map frame_pc (take n (drop skip stk))
      in pcs @ replicate (n - length pcs) 0)"

text \<open>
  \<open>runtime.Caller(skip)\<close> on the stack \<open>stk\<close> whose head is the frame of the function
  calling it: the frame at index \<open>skip\<close>, or \<open>ok = false\<close> (here \<open>None\<close>) beyond the stack.
\<close>

definition runtime_Caller :: "frame list \<Rightarrow> nat \<Rightarrow> frame option" where
  "runtime_Caller stk skip = (if skip < length stk then Some (stk ! skip) else None)"

definition HasPrefix :: "string \<Rightarrow> string \<Rightarrow> bool" where
  "HasPrefix s p = (length p \<le> length s \<and> take (length p) s = p)"

subsection \<open>The skip-depth resolver\<close>

datatype json_error = UnsupportedTypeError

datatype error = ErrSkipNotFound | ErrMarshal json_error

text \<open>
  \<open>stackSkips\<close> is \<open>map[logrus.Level]int\<close>. The only values ever stored are \<open>i + 1\<close> for an
  index \<open>i\<close> of a 20-slot buffer, so a depth is a natural number and no arithmetic wraps.
\<close>

type_synonym skip_cache = "Level \<rightharpoonup> nat"

definition logrus_prefix :: string where
  "logrus_prefix = ''github.com/sirupsen/logrus''"

text \<open>
  The loop \<open>for i, pc := range stackSkipsCallers\<close>: \<open>continue\<close> on a frame of logrus,
  return \<open>i + 1\<close> at the first other slot, fall out of the loop when every slot was
  skipped.
\<close>

fun scan_callers :: "runtime \<Rightarrow> uintptr list \<Rightarrow> nat \<Rightarrow> nat option" where
  "scan_callers rt [] i = None"
| "scan_callers rt (p # ps) i =
     (if HasPrefix (Func_Name (FuncForPC rt p)) logrus_prefix
      then scan_callers rt ps (Suc i)
      else Some (i + 1))"

text \<open>
  \<open>getSkipLevel\<close> returns its result and the cache it leaves behind. The two reads of
  \<open>stackSkips\<close> (under the read lock, then again under the write lock) are both kept;
  the locks themselves order concurrent calls and have no effect on one call.
\<close>

definition getSkipLevel :: "runtime \<Rightarrow> skip_cache \<Rightarrow> Level \<Rightarrow> (error + nat) \<times> skip_cache" where
  "getSkipLevel rt stackSkips level =
     (case stackSkips level of
        Some skip \<Rightarrow> (Inr skip, stackSkips)
      | None \<Rightarrow>
          (case stackSkips level of
             Some skip \<Rightarrow> (Inr skip, stackSkips)
           | None \<Rightarrow>
               (let stackSkipsCallers =
                      runtime_Callers (frame_Callers rt # frame_getSkipLevel rt # stack rt) 3 20
                in case scan_callers rt stackSkipsCallers 0 of
                     Some skip \<Rightarrow> (Inr skip, stackSkips(level \<mapsto> skip))
                   | None \<Rightarrow> (Inl ErrSkipNotFound, stackSkips))))"

subsection \<open>Field values\<close>

text \<open>
  A field value is an \<open>interface{}\<close>. The dynamic types modelled are \<open>nil\<close>, \<open>bool\<close>,
  \<open>int\<close>, \<open>string\<close> (a byte sequence), an error value as \<open>errors.New\<close> and
  \<open>fmt.Errorf\<close> build it (a pointer to a struct with no exported field; it carries the
  text that its method \<open>Error\<close> returns), \<open>[]interface{}\<close>, \<open>map[string]interface{}\<close>
  (an association list) and a channel, which stands for the types that \<open>encoding/json\<close>
  rejects. Floating-point values are left out.
\<close>

datatype iface =
    VNil
  | VBool bool
  | VInt int
  | VString string
  | VError string
  | VSlice "iface list"
  | VMap "(string \<times> iface) list"
  | VChan

type_synonym Fields = "(string \<times> iface) list"

subsection \<open>encoding/json: Marshal\<close>

definition quote :: char where "quote = CHR 0x22"
definition backslash :: char where "backslash = CHR 0x5C"

definition hexdigit :: "nat \<Rightarrow> char" where
  "hexdigit n = ''0123456789abcdef'' ! n"

text \<open>
  \<open>utf8.DecodeRuneInString\<close>, as far as the encoder needs it: \<open>utf8_len s\<close> is the width
  of the well-formed UTF-8 sequence at the head of \<open>s\<close>, and 0 where Go reports
  \<open>(RuneError, 1)\<close> or, on the empty string, \<open>(RuneError, 0)\<close>.
\<close>

definition byte_in :: "nat \<Rightarrow> nat \<Rightarrow> char \<Rightarrow> bool" where
  "byte_in lo hi c = (lo \<le> of_char c \<and> of_char c \<le> hi)"

definition cont :: "char \<Rightarrow> bool" where
  "cont c = byte_in 0x80 0xBF c"

text \<open>
  The table \<open>first\<close> of package \<open>utf8\<close> with its accept ranges: for a lead byte, the
  width of the sequence and the range of the second byte.
\<close>

definition first_byte :: "nat \<Rightarrow> (nat \<times> nat \<times> nat) option" where
  "first_byte x =
     (if 0xC2 \<le> x \<and> x \<le> 0xDF then Some (2, 0x80, 0xBF)
      else if x = 0xE0 then Some (3, 0xA0, 0xBF)
      else if x = 0xED then Some (3, 0x80, 0x9F)
      else if 0xE1 \<le> x \<and> x \<le> 0xEF then Some (3, 0x80, 0xBF)
      else if x = 0xF0 then Some (4, 0x90, 0xBF)
      else if 0xF1 \<le> x \<and> x \<le> 0xF3 then Some (4, 0x80, 0xBF)
      else if x = 0xF4 then Some (4, 0x80, 0x8F)
      else None)"

definition utf8_len :: "string \<Rightarrow> nat" where
  "utf8_len s =
     (case s of
        [] \<Rightarrow> 0
      | b # r \<Rightarrow>
          if (of_char b :: nat) < 0x80 then 1
          else
            (case first_byte (of_char b) of
               None \<Rightarrow> 0
             | Some (sz, lo, hi) \<Rightarrow>
                 (case r of
                    [] \<Rightarrow> 0
                  | b1 # r1 \<Rightarrow>
                      if byte_in lo hi b1 \<and> sz - 2 \<le> length r1
                         \<and> list_all cont (take (sz - 2) r1)
                      then sz else 0)))"

text \<open>
  The string encoder with \<open>escapeHTML\<close> set, as \<open>Marshal\<close> sets it. \<open>htmlSafeSet\<close> holds
  the bytes from 0x20 to 0x7F except the quote, the backslash and \<open><\<close>, \<open>>\<close>, \<open>&\<close>.
  (Go 1.22 and later write \<open>\b\<close> and \<open>\f\<close> for the bytes 8 and 12, earlier releases
  the six-byte form used here; both denote the same string.)
\<close>

definition htmlSafeSet :: "char \<Rightarrow> bool" where
  "htmlSafeSet b = (0x20 \<le> (of_char b :: nat) \<and> (of_char b :: nat) < 0x80 \<and> b \<noteq> quote
     \<and> b \<noteq> backslash \<and> b \<noteq> CHR ''<'' \<and> b \<noteq> CHR ''>'' \<and> b \<noteq> CHR ''&'')"

definition escape_byte :: "char \<Rightarrow> string" where
  "escape_byte b =
     (if htmlSafeSet b then [b]
      else if b = backslash \<or> b = quote then [backslash, b]
      else if b = CHR 0x0A then [backslash, CHR ''n'']
      else if b = CHR 0x0D then [backslash, CHR ''r'']
      else if b = CHR 0x09 then [backslash, CHR ''t'']
      else [backslash, CHR ''u'', CHR ''0'', CHR ''0'',
            hexdigit (of_char b div 16), hexdigit (of_char b mod 16)])"

fun string_body :: "string \<Rightarrow> string" where
  "string_body [] = []"
| "string_body (b # r) =
     (if (of_char b :: nat) < 0x80 then escape_byte b @ string_body r
      else if utf8_len (b # r) = 0
        then [backslash, CHR ''u'', CHR ''f'', CHR ''f'', CHR ''f'', CHR ''d''] @ string_body r
      else if take 3 (b # r) = [CHR 0xE2, CHR 0x80, CHR 0xA8]
        then [backslash, CHR ''u'', CHR ''2'', CHR ''0'', CHR ''2'', CHR ''8'']
             @ string_body (drop 2 r)
      else if take 3 (b # r) = [CHR 0xE2, CHR 0x80, CHR 0xA9]
        then [backslash, CHR ''u'', CHR ''2'', CHR ''0'', CHR ''2'', CHR ''9'']
             @ string_body (drop 2 r)
      else take (utf8_len (b # r)) (b # r) @ string_body (drop (utf8_len (b # r) - 1) r))"

definition encode_string :: "string \<Rightarrow> string" where
  "encode_string s = quote # string_body s @ [quote]"

text \<open>\<open>strconv.AppendInt(b, v, 10)\<close>.\<close>

definition digit_char :: "nat \<Rightarrow> char" where
  "digit_char d = char_of (48 + d)"

fun digits_nat :: "nat \<Rightarrow> string" where
  "digits_nat n = (if n < 10 then [digit_char n] else digits_nat (n div 10) @ [digit_char (n mod 10)])"

definition encode_int :: "int \<Rightarrow> string" where
  "encode_int i = (if i < 0 then CHR ''-'' # digits_nat (nat (- i)) else digits_nat (nat i))"

fun join_with :: "string \<Rightarrow> string list \<Rightarrow> string" where
  "join_with sep [] = []"
| "join_with sep [x] = x"
| "join_with sep (x # y # ys) = x @ sep @ join_with sep (y # ys)"

text \<open>
  \<open>Marshal\<close> rejects a value that holds a channel anywhere and writes nothing then.
  Otherwise: a map is written with its keys sorted bytewise; an error value, having no
  exported field, is written as the empty object.
\<close>

fun encodable :: "iface \<Rightarrow> bool" where
  "encodable VChan = False"
| "encodable (VSlice vs) = list_all encodable vs"
| "encodable (VMap m) = list_all (\<lambda>kv. encodable (snd kv)) m"
| "encodable _ = True"

fun enc :: "iface \<Rightarrow> string" where
  "enc VNil = ''null''"
| "enc (VBool b) = (if b then ''true'' else ''false'')"
| "enc (VInt i) = encode_int i"
| "enc (VString s) = encode_string s"
| "enc (VError m) = ''{}''"
| "enc (VSlice vs) = ''['' @ join_with '','' (map enc vs) @ '']''"
| "enc (VMap m) =
     ''{'' @ join_with '','' (map (\<lambda>kv. encode_string (fst kv) @ '':'' @ enc (snd kv))
                                   (sort_key fst m)) @ ''}''"
| "enc VChan = []"

definition Marshal :: "iface \<Rightarrow> json_error + string" where
  "Marshal v = (if encodable v then Inr (enc v) else Inl UnsupportedTypeError)"

subsection \<open>time.Time and the layout RFC3339Nano\<close>

text \<open>
  A \<open>time.Time\<close> is taken as what its methods \<open>Date\<close>, \<open>Clock\<close>, \<open>Nanosecond\<close> and \<open>Zone\<close>
  report: the civil date and time, the nanosecond within the second, and the zone offset
  in seconds east of UTC, each a Go \<open>int\<close>.
\<close>

record Time =
  Year :: int
  Month :: int
  Day :: int
  Hour :: int
  Minute :: int
  Second :: int
  Nanosecond :: int
  ZoneOffset :: int

text \<open>\<open>appendInt(b, x, width)\<close> of package \<open>time\<close>: sign, zero padding, digits.\<close>

definition appendInt :: "int \<Rightarrow> nat \<Rightarrow> string" where
  "appendInt x width =
     (let ds = digits_nat (nat \<bar>x\<bar>)
      in (if x < 0 then ''-'' else []) @ replicate (width - length ds) (CHR ''0'') @ ds)"

text \<open>
  \<open>formatNano\<close> for the layout element \<open>.999999999\<close>: nine digits, trailing zeros
  trimmed, and nothing at all, not even the point, when all nine are zero.
\<close>

definition formatNano :: "int \<Rightarrow> string" where
  "formatNano nanosec =
     (let buf = appendInt (nanosec mod 1000000000) 9;
          trimmed = rev (dropWhile (\<lambda>c. c = CHR ''0'') (rev buf))
      in if trimmed = [] then [] else CHR ''.'' # trimmed)"

text \<open>The zone element \<open>Z07:00\<close>; Go's integer division truncates towards zero.\<close>

definition formatZone :: "int \<Rightarrow> string" where
  "formatZone offset =
     (if offset = 0 then ''Z''
      else let zone = (if offset < 0 then - ((- offset) div 60) else offset div 60)
           in (if zone < 0 then ''-'' else ''+'')
              @ appendInt (\<bar>zone\<bar> div 60) 2 @ '':'' @ appendInt (\<bar>zone\<bar> mod 60) 2)"

definition Format_RFC3339Nano :: "Time \<Rightarrow> string" where
  "Format_RFC3339Nano t =
     appendInt (Year t) 4 @ ''-'' @ appendInt (Month t) 2 @ ''-''
     @ appendInt (Day t) 2 @ ''T'' @ appendInt (Hour t) 2 @ '':''
     @ appendInt (Minute t) 2 @ '':'' @ appendInt (Second t) 2
     @ formatNano (Nanosecond t) @ formatZone (ZoneOffset t)"

subsection \<open>Format\<close>

record Entry =
  Data :: Fields
  Time :: Time
  Level :: Level
  Message :: string

record GCEFormatter =
  withSourceInfo :: bool

definition NewGCEFormatter :: "bool \<Rightarrow> GCEFormatter" where
  "NewGCEFormatter w = \<lparr>withSourceInfo = w\<rparr>"

text \<open>
  The type switch of the copy loop: a value that implements \<open>error\<close> is replaced by the
  string its method \<open>Error\<close> returns, any other value is kept.
\<close>

fun coerce :: "iface \<Rightarrow> iface" where
  "coerce (VError m) = VString m"
| "coerce v = v"

text \<open>
  The loop \<open>for k, v := range entry.Data\<close>, writing \<open>data[k]\<close>. A Go map has each key
  once, and then the order of the iteration, which Go leaves open, does not matter; here
  it is the order of the list.
\<close>

fun copy_fields :: "Fields \<Rightarrow> Fields \<Rightarrow> Fields" where
  "copy_fields [] data = data"
| "copy_fields ((k, v) # kvs) data = copy_fields kvs (AList.update k (coerce v) data)"

definition sourceLocation_key :: string where
  "sourceLocation_key = ''logging.googleapis.com/sourceLocation''"

definition LF :: char where "LF = CHR 0x0A"

text \<open>
  \<open>Format\<close> returns its result, bytes or an error, and the skip cache it leaves behind.
\<close>

definition Format :: "GCEFormatter \<Rightarrow> runtime \<Rightarrow> skip_cache \<Rightarrow> Entry \<Rightarrow> (error + string) \<times> skip_cache" where
  "Format f rt stackSkips entry =
     (let data = copy_fields (Data entry) [];
          data = AList.update ''time'' (VString (Format_RFC3339Nano (Time entry))) data;
          data = AList.update ''severity'' (VString (severity_index (Level entry))) data;
          data = AList.update ''message'' (VString (Message entry)) data;
          marshal = (\<lambda>data. case Marshal (VMap data) of
                               Inl err \<Rightarrow> Inl (ErrMarshal err)
                             | Inr serialized \<Rightarrow> Inr (serialized @ [LF]))
      in if withSourceInfo f then
           (case getSkipLevel rt stackSkips (Level entry) of
              (Inl err, stackSkips') \<Rightarrow> (Inl err, stackSkips')
            | (Inr skip, stackSkips') \<Rightarrow>
                (case runtime_Caller (stack rt) skip of
                   Some fr \<Rightarrow>
                     (marshal (AList.update sourceLocation_key
                        (VMap [(''file'', VString (frame_file fr)),
                               (''line'', VInt (frame_line fr)),
                               (''function'', VString (Func_Name (FuncForPC rt (frame_pc fr))))])
                        data), stackSkips')
                 | None \<Rightarrow> (marshal data, stackSkips')))
         else (marshal data, stackSkips))"

subsection \<open>Reading JSON back\<close>

text \<open>
  The JSON values, and a decoder for JSON texts (RFC 8259) without insignificant
  whitespace and with integers as the only numbers, which is what \<open>Marshal\<close> writes for
  the values above. A text that the decoder accepts is a JSON text: well-formed UTF-8,
  a single value, nothing before it and nothing after it.
\<close>

datatype json =
    JNull
  | JBool bool
  | JNum int
  | JStr string
  | JArr "json list"
  | JObj "(string \<times> json) list"

fun valid_utf8 :: "string \<Rightarrow> bool" where
  "valid_utf8 [] = True"
| "valid_utf8 (b # r) = (utf8_len (b # r) \<noteq> 0 \<and> valid_utf8 (drop (utf8_len (b # r) - 1) r))"

definition hexval :: "char \<Rightarrow> nat option" where
  "hexval c =
     (let x = (of_char c :: nat) in
      if 48 \<le> x \<and> x \<le> 57 then Some (x - 48)
      else if 97 \<le> x \<and> x \<le> 102 then Some (x - 87)
      else if 65 \<le> x \<and> x \<le> 70 then Some (x - 55)
      else None)"

definition hex4 :: "char \<Rightarrow> char \<Rightarrow> char \<Rightarrow> char \<Rightarrow> nat option" where
  "hex4 a b c d =
     (case (hexval a, hexval b, hexval c, hexval d) of
        (Some x, Some y, Some z, Some w) \<Rightarrow> Some (((x * 16 + y) * 16 + z) * 16 + w)
      | _ \<Rightarrow> None)"

text \<open>
  The UTF-8 encoding of a code point below 0x10000; a surrogate has none. (A pair of
  \<open>\u\<close> escapes that denotes a code point beyond is not read: the decoder rejects it.)
\<close>

definition utf8_encode :: "nat \<Rightarrow> string option" where
  "utf8_encode cp =
     (if cp < 0x80 then Some [char_of cp]
      else if cp < 0x800 then Some [char_of (0xC0 + cp div 64), char_of (0x80 + cp mod 64)]
      else if 0xD800 \<le> cp \<and> cp \<le> 0xDFFF then None
      else Some [char_of (0xE0 + cp div 4096), char_of (0x80 + cp div 64 mod 64),
                 char_of (0x80 + cp mod 64)])"

definition unescape :: "char \<Rightarrow> char option" where
  "unescape e =
     (if e = quote \<or> e = backslash \<or> e = CHR ''/'' then Some e
      else if e = CHR ''b'' then Some (CHR 0x08)
      else if e = CHR ''f'' then Some (CHR 0x0C)
      else if e = CHR ''n'' then Some (CHR 0x0A)
      else if e = CHR ''r'' then Some (CHR 0x0D)
      else if e = CHR ''t'' then Some (CHR 0x09)
      else None)"

text \<open>The characters of a string after its opening quote, up to the closing quote.\<close>

fun parse_chars :: "string \<Rightarrow> (string \<times> string) option" where
  "parse_chars [] = None"
| "parse_chars (c # r) =
     (if c = quote then Some ([], r)
      else if c = backslash then
        (case r of
           [] \<Rightarrow> None
         | e # r' \<Rightarrow>
             if e = CHR ''u'' then
               (case r' of
                  a # b # c # d # r'' \<Rightarrow>
                    (case hex4 a b c d of
                       None \<Rightarrow> None
                     | Some cp \<Rightarrow>
                         (case utf8_encode cp of
                            None \<Rightarrow> None
                          | Some bs \<Rightarrow>
                              (case parse_chars r'' of
                                 None \<Rightarrow> None
                               | Some (s, rest) \<Rightarrow> Some (bs @ s, rest))))
                | _ \<Rightarrow> None)
             else
               (case unescape e of
                  None \<Rightarrow> None
                | Some b \<Rightarrow>
                    (case parse_chars r' of
                       None \<Rightarrow> None
                     | Some (s, rest) \<Rightarrow> Some (b # s, rest))))
      else if (of_char c :: nat) < 0x20 then None
      else (case parse_chars r of
              None \<Rightarrow> None
            | Some (s, rest) \<Rightarrow> Some (c # s, rest)))"

definition is_digit :: "char \<Rightarrow> bool" where
  "is_digit c = (48 \<le> (of_char c :: nat) \<and> (of_char c :: nat) \<le> 57)"

definition digits_value :: "string \<Rightarrow> nat" where
  "digits_value ds = foldl (\<lambda>a c. 10 * a + (of_char c - 48)) 0 ds"

definition parse_nat :: "string \<Rightarrow> (nat \<times> string) option" where
  "parse_nat s =
     (let ds = takeWhile is_digit s in
      if ds = [] \<or> (hd ds = CHR ''0'' \<and> 1 < length ds) then None
      else Some (digits_value ds, dropWhile is_digit s))"

definition parse_int :: "string \<Rightarrow> (int \<times> string) option" where
  "parse_int s =
     (case s of
        [] \<Rightarrow> None
      | c # r \<Rightarrow>
          if c = CHR ''-'' then
            (case parse_nat r of None \<Rightarrow> None | Some (n, rest) \<Rightarrow> Some (- int n, rest))
          else
            (case parse_nat s of None \<Rightarrow> None | Some (n, rest) \<Rightarrow> Some (int n, rest)))"

text \<open>
  The value parser. The first argument bounds the number of nested calls; the length
  of the text is always enough.
\<close>

fun parse_value :: "nat \<Rightarrow> string \<Rightarrow> (json \<times> string) option"
  and parse_elems :: "nat \<Rightarrow> string \<Rightarrow> (json list \<times> string) option"
  and parse_members :: "nat \<Rightarrow> string \<Rightarrow> ((string \<times> json) list \<times> string) option"
where
  "parse_value 0 s = None"
| "parse_value (Suc n) s =
     (case s of
        [] \<Rightarrow> None
      | c # r \<Rightarrow>
          if c = CHR ''{'' then
            (if r \<noteq> [] \<and> hd r = CHR ''}'' then Some (JObj [], tl r)
             else (case parse_members n r of
                     None \<Rightarrow> None
                   | Some (ms, rest) \<Rightarrow> Some (JObj ms, rest)))
          else if c = CHR ''['' then
            (if r \<noteq> [] \<and> hd r = CHR '']'' then Some (JArr [], tl r)
             else (case parse_elems n r of
                     None \<Rightarrow> None
                   | Some (vs, rest) \<Rightarrow> Some (JArr vs, rest)))
          else if c = quote then
            (case parse_chars r of
               None \<Rightarrow> None
             | Some (str, rest) \<Rightarrow> Some (JStr str, rest))
          else if take 4 s = ''null'' then Some (JNull, drop 4 s)
          else if take 4 s = ''true'' then Some (JBool True, drop 4 s)
          else if take 5 s = ''false'' then Some (JBool False, drop 5 s)
          else (case parse_int s of
                  None \<Rightarrow> None
                | Some (i, rest) \<Rightarrow> Some (JNum i, rest)))"
| "parse_elems 0 s = None"
| "parse_elems (Suc n) s =
     (case parse_value n s of
        None \<Rightarrow> None
      | Some (v, r) \<Rightarrow>
          (case r of
             [] \<Rightarrow> None
           | c # r' \<Rightarrow>
               if c = CHR '']'' then Some ([v], r')
               else if c = CHR '','' then
                 (case parse_elems n r' of
                    None \<Rightarrow> None
                  | Some (vs, rest) \<Rightarrow> Some (v # vs, rest))
               else None))"
| "parse_members 0 s = None"
| "parse_members (Suc n) s =
     (case s of
        [] \<Rightarrow> None
      | q # r0 \<Rightarrow>
          if q \<noteq> quote then None
          else
            (case parse_chars r0 of
               None \<Rightarrow> None
             | Some (k, r1) \<Rightarrow>
                 (case r1 of
                    [] \<Rightarrow> None
                  | colon # r2 \<Rightarrow>
                      if colon \<noteq> CHR '':'' then None
                      else
                        (case parse_value n r2 of
                           None \<Rightarrow> None
                         | Some (v, r) \<Rightarrow>
                             (case r of
                                [] \<Rightarrow> None
                              | c # r' \<Rightarrow>
                                  if c = CHR ''}'' then Some ([(k, v)], r')
                                  else if c = CHR '','' then
                                    (case parse_members n r' of
                                       None \<Rightarrow> None
                                     | Some (ms, rest) \<Rightarrow> Some ((k, v) # ms, rest))
                                  else None)))))"

definition decode :: "string \<Rightarrow> json option" where
  "decode s =
     (if valid_utf8 s then
        (case parse_value (length s) s of
           Some (j, []) \<Rightarrow> Some j
         | _ \<Rightarrow> None)
      else None)"

text \<open>Decoding one line of output: the text before the final newline.\<close>

definition decode_line :: "string \<Rightarrow> json option" where
  "decode_line out = (if out \<noteq> [] \<and> last out = LF then decode (butlast out) else None)"

text \<open>
  What \<open>Marshal\<close> makes of a string: each byte that is not part of a well-formed UTF-8
  sequence becomes U+FFFD (the bytes EF BF BD); a well-formed string stays as it is.
\<close>

fun sanitize :: "string \<Rightarrow> string" where
  "sanitize [] = []"
| "sanitize (b # r) =
     (if utf8_len (b # r) = 0 then [CHR 0xEF, CHR 0xBF, CHR 0xBD] @ sanitize r
      else take (utf8_len (b # r)) (b # r) @ sanitize (drop (utf8_len (b # r) - 1) r))"

text \<open>
  The JSON value that a field value stands for: \<open>denote\<close> is the value as \<open>Marshal\<close>
  writes it, \<open>json_of\<close> the value itself. They agree on values whose strings and keys
  are well-formed UTF-8.
\<close>

fun denote :: "iface \<Rightarrow> json" where
  "denote VNil = JNull"
| "denote (VBool b) = JBool b"
| "denote (VInt i) = JNum i"
| "denote (VString s) = JStr (sanitize s)"
| "denote (VError m) = JObj []"
| "denote (VSlice vs) = JArr (map denote vs)"
| "denote (VMap m) = JObj (map (\<lambda>kv. (sanitize (fst kv), denote (snd kv))) (sort_key fst m))"
| "denote VChan = JNull"

fun json_of :: "iface \<Rightarrow> json" where
  "json_of VNil = JNull"
| "json_of (VBool b) = JBool b"
| "json_of (VInt i) = JNum i"
| "json_of (VString s) = JStr s"
| "json_of (VError m) = JObj []"
| "json_of (VSlice vs) = JArr (map json_of vs)"
| "json_of (VMap m) = JObj (map (\<lambda>kv. (fst kv, json_of (snd kv))) (sort_key fst m))"
| "json_of VChan = JNull"

fun utf8_clean :: "iface \<Rightarrow> bool" where
  "utf8_clean (VString s) = valid_utf8 s"
| "utf8_clean (VSlice vs) = list_all utf8_clean vs"
| "utf8_clean (VMap m) = list_all (\<lambda>kv. valid_utf8 (fst kv) \<and> utf8_clean (snd kv)) m"
| "utf8_clean _ = True"

subsection \<open>Auxiliary notions for the proofs\<close>

text \<open>
  \<open>after\<close> puts bytes in front of a parsed string; \<open>stops\<close> holds of a text that does
  not go on with a digit; \<open>reads_back\<close> says that the parser reads the encoding of a
  value back, whatever follows it; \<open>member_text\<close> and \<open>member_json\<close> are one member of
  an object, as written and as read.
\<close>

definition after :: "string \<Rightarrow> (string \<times> string) option \<Rightarrow> (string \<times> string) option" where
  "after xs res = (case res of None \<Rightarrow> None | Some (s, rest) \<Rightarrow> Some (xs @ s, rest))"

definition stops :: "string \<Rightarrow> bool" where
  "stops rest = (rest = [] \<or> \<not> is_digit (hd rest))"

definition reads_back :: "iface \<Rightarrow> bool" where
  "reads_back v = (\<forall>n rest. length (enc v) \<le> n \<longrightarrow> stops rest \<longrightarrow>
      parse_value n (enc v @ rest) = Some (denote v, rest))"

definition member_text :: "string \<times> iface \<Rightarrow> string" where
  "member_text kv = encode_string (fst kv) @ '':'' @ enc (snd kv)"

definition member_json :: "string \<times> iface \<Rightarrow> string \<times> json" where
  "member_json kv = (sanitize (fst kv), denote (snd kv))"

subsection \<open>Observing a call of Format\<close>

text \<open>
  \<open>base_data\<close> is the field set \<open>data\<close> of \<open>Format\<close> after the copy loop and the three
  assignments of \<open>time\<close>, \<open>severity\<close> and \<open>message\<close>; \<open>source_value\<close> is the map literal
  stored under the source-location key; \<open>marshalled\<close> is the field set that reaches
  \<open>json.Marshal\<close> when \<open>getSkipLevel\<close> did not fail; \<open>marshal_line\<close> is the end of
  \<open>Format\<close>. They restate parts of \<open>Format\<close> and are related to it by lemma
  \<open>Format_eq\<close>.
\<close>

definition base_data :: "Entry \<Rightarrow> Fields" where
  "base_data entry =
     AList.update ''message'' (VString (Message entry))
       (AList.update ''severity'' (VString (severity_index (Level entry)))
          (AList.update ''time'' (VString (Format_RFC3339Nano (Time entry)))
             (copy_fields (Data entry) [])))"

definition source_value :: "runtime \<Rightarrow> frame \<Rightarrow> iface" where
  "source_value rt fr =
     VMap [(''file'', VString (frame_file fr)),
           (''line'', VInt (frame_line fr)),
           (''function'', VString (Func_Name (FuncForPC rt (frame_pc fr))))]"

definition final_data :: "runtime \<Rightarrow> nat \<Rightarrow> Entry \<Rightarrow> Fields" where
  "final_data rt skip entry =
     (case runtime_Caller (stack rt) skip of
        Some fr \<Rightarrow> AList.update sourceLocation_key (source_value rt fr) (base_data entry)
      | None \<Rightarrow> base_data entry)"

definition marshalled :: "GCEFormatter \<Rightarrow> runtime \<Rightarrow> skip_cache \<Rightarrow> Entry \<Rightarrow> Fields" where
  "marshalled f rt stackSkips entry =
     (if withSourceInfo f then
        (case fst (getSkipLevel rt stackSkips (Level entry)) of
           Inr skip \<Rightarrow> final_data rt skip entry
         | Inl err \<Rightarrow> base_data entry)
      else base_data entry)"

definition marshal_line :: "Fields \<Rightarrow> error + string" where
  "marshal_line data =
     (case Marshal (VMap data) of
        Inl err \<Rightarrow> Inl (ErrMarshal err)
      | Inr serialized \<Rightarrow> Inr (serialized @ [LF]))"

text \<open>
  The members of the object that the output line of \<open>Format\<close> decodes to (none when
  \<open>Format\<close> fails), and the value found there under a name.
\<close>

definition output_members :: "GCEFormatter \<Rightarrow> runtime \<Rightarrow> skip_cache \<Rightarrow> Entry \<Rightarrow> (string \<times> json) list" where
  "output_members f rt stackSkips entry =
     (case fst (Format f rt stackSkips entry) of
        Inl err \<Rightarrow> []
      | Inr out \<Rightarrow> (case decode_line out of Some (JObj obj) \<Rightarrow> obj | _ \<Rightarrow> []))"

definition emitted :: "GCEFormatter \<Rightarrow> runtime \<Rightarrow> skip_cache \<Rightarrow> Entry \<Rightarrow> string \<Rightarrow> json option" where
  "emitted f rt stackSkips entry k = map_of (output_members f rt stackSkips entry) k"

text \<open>
  The keys that \<open>Format\<close> assigns itself in a call: the three reserved keys always, the
  source-location key when source info is enabled, a depth was obtained and
  \<open>runtime.Caller\<close> reported a frame at that depth.
\<close>

definition overwritten :: "GCEFormatter \<Rightarrow> runtime \<Rightarrow> skip_cache \<Rightarrow> Entry \<Rightarrow> string set" where
  "overwritten f rt stackSkips entry =
     {''time'', ''severity'', ''message''} \<union>
     (if withSourceInfo f then
        (case fst (getSkipLevel rt stackSkips (Level entry)) of
           Inr skip \<Rightarrow>
             (case runtime_Caller (stack rt) skip of
                Some fr \<Rightarrow> {sourceLocation_key}
              | None \<Rightarrow> {})
         | Inl err \<Rightarrow> {})
      else {})"

subsection \<open>Sample stacks and entries\<close>

text \<open>
  A call \<open>logrus.Info\<close> from \<open>main.main\<close>: above \<open>Format\<close> lie two frames of logrus, then
  the application, then the runtime.
\<close>

definition demo_funcs :: "uintptr \<rightharpoonup> string" where
  "demo_funcs =
     [0x1010 \<mapsto> ''github.com/marcelhuth/logrus-gce.(*GCEFormatter).Format'',
      0x2020 \<mapsto> ''github.com/sirupsen/logrus.(*Entry).log'',
      0x2030 \<mapsto> ''github.com/sirupsen/logrus.(*Entry).Info'',
      0x3010 \<mapsto> ''main.main'',
      0x4010 \<mapsto> ''runtime.main'',
      0x4020 \<mapsto> ''runtime.goexit'']"

definition demo_rt :: runtime where
  "demo_rt =
     \<lparr>stack =
        [\<lparr>frame_pc = 0x1010, frame_file = ''gceformatter.go'', frame_line = 119\<rparr>,
         \<lparr>frame_pc = 0x2020, frame_file = ''entry.go'', frame_line = 255\<rparr>,
         \<lparr>frame_pc = 0x2030, frame_file = ''entry.go'', frame_line = 304\<rparr>,
         \<lparr>frame_pc = 0x3010, frame_file = ''main.go'', frame_line = 7\<rparr>,
         \<lparr>frame_pc = 0x4010, frame_file = ''proc.go'', frame_line = 250\<rparr>,
         \<lparr>frame_pc = 0x4020, frame_file = ''asm_amd64.s'', frame_line = 1594\<rparr>],
      funcs = demo_funcs,
      frame_getSkipLevel = \<lparr>frame_pc = 0x1020, frame_file = ''gceformatter.go'', frame_line = 77\<rparr>,
      frame_Callers = \<lparr>frame_pc = 0x4030, frame_file = ''extern.go'', frame_line = 325\<rparr>\<rparr>"

text \<open>
  A goroutine that calls \<open>Format\<close> directly: \<open>Format\<close>, the worker, the runtime.
\<close>

definition shallow_rt :: runtime where
  "shallow_rt =
     \<lparr>stack =
        [\<lparr>frame_pc = 0x1010, frame_file = ''gceformatter.go'', frame_line = 119\<rparr>,
         \<lparr>frame_pc = 0x3010, frame_file = ''main.go'', frame_line = 7\<rparr>,
         \<lparr>frame_pc = 0x4020, frame_file = ''asm_amd64.s'', frame_line = 1594\<rparr>],
      funcs = demo_funcs,
      frame_getSkipLevel = \<lparr>frame_pc = 0x1020, frame_file = ''gceformatter.go'', frame_line = 77\<rparr>,
      frame_Callers = \<lparr>frame_pc = 0x4030, frame_file = ''extern.go'', frame_line = 325\<rparr>\<rparr>"

text \<open>A stack on which twenty frames of logrus lie above \<open>Format\<close>.\<close>

definition deep_rt :: runtime where
  "deep_rt =
     \<lparr>stack =
        \<lparr>frame_pc = 0x1010, frame_file = ''gceformatter.go'', frame_line = 119\<rparr>
        # replicate 20 \<lparr>frame_pc = 0x2020, frame_file = ''entry.go'', frame_line = 255\<rparr>
        @ [\<lparr>frame_pc = 0x3010, frame_file = ''main.go'', frame_line = 7\<rparr>],
      funcs = demo_funcs,
      frame_getSkipLevel = \<lparr>frame_pc = 0x1020, frame_file = ''gceformatter.go'', frame_line = 77\<rparr>,
      frame_Callers = \<lparr>frame_pc = 0x4030, frame_file = ''extern.go'', frame_line = 325\<rparr>\<rparr>"

definition demo_time :: Time where
  "demo_time = \<lparr>Year = 2020, Month = 1, Day = 2, Hour = 3, Minute = 4, Second = 5,
                 Nanosecond = 120000000, ZoneOffset = - 3600\<rparr>"

definition demo_entry :: Entry where
  "demo_entry = \<lparr>Data = [(''path'', VString ''/data'')], Time = demo_time,
                  Level = InfoLevel, Message = ''disk full''\<rparr>"

definition trace_entry :: Entry where
  "trace_entry = \<lparr>Data = [(''path'', VString ''/data'')], Time = demo_time,
                   Level = TraceLevel, Message = ''disk full''\<rparr>"

definition clash_entry :: Entry where
  "clash_entry = \<lparr>Data = [(''message'', VError ''boom'')], Time = demo_time,
                   Level = InfoLevel, Message = ''disk full''\<rparr>"

definition latin1_entry :: Entry where
  "latin1_entry = \<lparr>Data = [], Time = demo_time, Level = InfoLevel, Message = [CHR 0xE9]\<rparr>"

definition own_source_entry :: Entry where
  "own_source_entry = \<lparr>Data = [(sourceLocation_key, VString ''mine'')], Time = demo_time,
                        Level = InfoLevel, Message = ''disk full''\<rparr>"

definition error_entry :: Entry where
  "error_entry = \<lparr>Data = [(''cause'', VError ''boom''), (''path'', VString ''/data'')],
                   Time = demo_time, Level = ErrorLevel, Message = ''disk full''\<rparr>"

section \<open>Properties\<close>

subsection \<open>The skip-depth resolver and its cache\<close>

lemma length_runtime_Callers: "length (runtime_Callers stk skip n) = n"
  by (simp add: runtime_Callers_def Let_def)

text \<open>
  The window of \<open>getSkipLevel\<close>: slot \<open>j\<close> holds the frame \<open>j + 1\<close> of the stack of
  \<open>Format\<close>, that is the \<open>j\<close>-th caller of \<open>Format\<close>, and 0 beyond the stack.
\<close>

lemma getSkipLevel_window:
  "j < 20 \<Longrightarrow>
   runtime_Callers (frame_Callers rt # frame_getSkipLevel rt # stack rt) 3 20 ! j =
     (if j + 1 < length (stack rt) then frame_pc (stack rt ! (j + 1)) else 0)"
  by (auto simp: runtime_Callers_def Let_def nth_append)

lemma scan_callers_first:
  "i < length ps \<Longrightarrow>
   \<forall>j<i. HasPrefix (Func_Name (FuncForPC rt (ps ! j))) logrus_prefix \<Longrightarrow>
   \<not> HasPrefix (Func_Name (FuncForPC rt (ps ! i))) logrus_prefix \<Longrightarrow>
   scan_callers rt ps k = Some (k + i + 1)"
proof (induction ps arbitrary: i k)
  case Nil
  then show ?case by simp
next
  case (Cons p ps)
  show ?case
  proof (cases i)
    case 0
    with Cons.prems show ?thesis by simp
  next
    case (Suc i')
    have first_is_logrus: "HasPrefix (Func_Name (FuncForPC rt p)) logrus_prefix"
      using Cons.prems(2) Suc by auto
    have "scan_callers rt ps (Suc k) = Some (Suc k + i' + 1)"
    proof (rule Cons.IH)
      show "i' < length ps" using Cons.prems(1) Suc by simp
      show "\<forall>j<i'. HasPrefix (Func_Name (FuncForPC rt (ps ! j))) logrus_prefix"
        using Cons.prems(2) Suc by auto
      show "\<not> HasPrefix (Func_Name (FuncForPC rt (ps ! i'))) logrus_prefix"
        using Cons.prems(3) Suc by simp
    qed
    with first_is_logrus Suc show ?thesis by simp
  qed
qed

lemma scan_callers_none:
  "\<forall>p\<in>set ps. HasPrefix (Func_Name (FuncForPC rt p)) logrus_prefix \<Longrightarrow>
   scan_callers rt ps k = None"
  by (induction ps arbitrary: k) auto

lemma scan_callers_range:
  "scan_callers rt ps k = Some d \<Longrightarrow> k < d \<and> d \<le> k + length ps"
  by (induction ps arbitrary: k) (fastforce split: if_splits)+

lemma getSkipLevel_hit:
  "stackSkips level = Some d \<Longrightarrow> getSkipLevel rt stackSkips level = (Inr d, stackSkips)"
  by (simp add: getSkipLevel_def)

lemma getSkipLevel_keeps:
  "stackSkips l = Some d \<Longrightarrow> snd (getSkipLevel rt stackSkips level) l = Some d"
  by (auto simp: getSkipLevel_def Let_def split: option.splits)

lemma getSkipLevel_stores:
  "getSkipLevel rt stackSkips level = (Inr d, c') \<Longrightarrow> c' level = Some d"
  by (auto simp: getSkipLevel_def Let_def split: option.splits)

lemma getSkipLevel_miss_range:
  "stackSkips level = None \<Longrightarrow> getSkipLevel rt stackSkips level = (Inr d, c') \<Longrightarrow>
   1 \<le> d \<and> d \<le> 20"
  using scan_callers_range [of rt
      "runtime_Callers (frame_Callers rt # frame_getSkipLevel rt # stack rt) 3 20" 0 d]
  by (auto simp: getSkipLevel_def Let_def length_runtime_Callers split: option.splits)

lemma Format_cache:
  "snd (Format f rt stackSkips entry) =
     (if withSourceInfo f then snd (getSkipLevel rt stackSkips (Level entry)) else stackSkips)"
  by (auto simp: Format_def Let_def split: prod.splits sum.splits option.splits)

lemma demo_names:
  "HasPrefix ''github.com/sirupsen/logrus.(*Entry).log'' logrus_prefix"
  "HasPrefix ''github.com/sirupsen/logrus.(*Entry).Info'' logrus_prefix"
  "\<not> HasPrefix ''main.main'' logrus_prefix"
  "\<not> HasPrefix ''runtime.main'' logrus_prefix"
  "\<not> HasPrefix ''runtime.goexit'' logrus_prefix"
  "\<not> HasPrefix [] logrus_prefix"
  by (simp_all add: HasPrefix_def logrus_prefix_def)

lemma demo_window:
  "runtime_Callers (frame_Callers demo_rt # frame_getSkipLevel demo_rt # stack demo_rt) 3 20
   = [0x2020, 0x2030, 0x3010, 0x4010, 0x4020] @ replicate 15 0"
  by (simp add: runtime_Callers_def demo_rt_def)

lemma demo_getSkipLevel:
  "getSkipLevel demo_rt Map.empty InfoLevel = (Inr 3, [InfoLevel \<mapsto> 3])"
  by (simp add: getSkipLevel_def demo_window)
     (simp add: FuncForPC_def Func_Name_def demo_rt_def demo_funcs_def demo_names numeral_3_eq_3)

text \<open>
  C2. On a cache miss \<open>getSkipLevel\<close> walks the 20-slot window in order; if slot \<open>i\<close> is
  the first whose function name does not begin with \<open>github.com/sirupsen/logrus\<close>, it
  returns \<open>i + 1\<close> and stores \<open>i + 1\<close> in the cache under the level.
\<close>

theorem C2_getSkipLevel_walk:
  assumes "stackSkips level = None"
    and "buf = runtime_Callers (frame_Callers rt # frame_getSkipLevel rt # stack rt) 3 20"
    and "i < 20"
    and "\<forall>j<i. HasPrefix (Func_Name (FuncForPC rt (buf ! j))) logrus_prefix"
    and "\<not> HasPrefix (Func_Name (FuncForPC rt (buf ! i))) logrus_prefix"
  shows "getSkipLevel rt stackSkips level = (Inr (i + 1), stackSkips(level \<mapsto> i + 1))"
proof -
  have "i < length buf" using assms(2,3) by (simp add: length_runtime_Callers)
  from scan_callers_first [OF this assms(4) assms(5), of 0]
  have "scan_callers rt buf 0 = Some (i + 1)" by simp
  then show ?thesis using assms(1,2) by (simp add: getSkipLevel_def Let_def)
qed

theorem C2_getSkipLevel_walk_witness:
  "getSkipLevel demo_rt Map.empty InfoLevel = (Inr (2 + 1), [InfoLevel \<mapsto> 2 + 1])"
proof (rule C2_getSkipLevel_walk [where i = 2, OF _ refl])
  show "(Map.empty :: skip_cache) InfoLevel = None" by simp
  show "(2::nat) < 20" by simp
  have names: "Func_Name (FuncForPC demo_rt 0x2020) = ''github.com/sirupsen/logrus.(*Entry).log''"
    "Func_Name (FuncForPC demo_rt 0x2030) = ''github.com/sirupsen/logrus.(*Entry).Info''"
    "Func_Name (FuncForPC demo_rt 0x3010) = ''main.main''"
    by (simp_all add: FuncForPC_def Func_Name_def demo_rt_def demo_funcs_def)
  show "\<forall>j<2. HasPrefix (Func_Name (FuncForPC demo_rt
          (runtime_Callers (frame_Callers demo_rt # frame_getSkipLevel demo_rt # stack demo_rt)
             3 20 ! j))) logrus_prefix"
    by (simp add: demo_window less_Suc_eq numeral_2_eq_2 names demo_names)
  show "\<not> HasPrefix (Func_Name (FuncForPC demo_rt
          (runtime_Callers (frame_Callers demo_rt # frame_getSkipLevel demo_rt # stack demo_rt)
             3 20 ! 2))) logrus_prefix"
    by (simp add: demo_window names demo_names)
qed

text \<open>
  C3. Once a depth is stored for a level, \<open>getSkipLevel\<close> returns it and leaves the cache
  as it is, whatever the stack looks like (so the result does not come from a walk);
  neither \<open>getSkipLevel\<close> nor \<open>Format\<close> removes or changes an entry that is there; and
  after a call that returned a depth for a level, the next call for that level, on any
  stack, returns the same depth, also when the calls are made by \<open>Format\<close>.
\<close>

theorem C3_cache_memo:
  "(stackSkips level = Some d \<longrightarrow>
      getSkipLevel rt stackSkips level = (Inr d, stackSkips)
      \<and> getSkipLevel rt' stackSkips level = getSkipLevel rt stackSkips level)
   \<and> (stackSkips l = Some d \<longrightarrow>
      snd (getSkipLevel rt stackSkips level) l = Some d
      \<and> snd (Format f rt stackSkips entry) l = Some d)
   \<and> (getSkipLevel rt stackSkips level = (Inr d, c') \<longrightarrow>
      getSkipLevel rt' c' level = (Inr d, c'))
   \<and> (withSourceInfo f \<and> getSkipLevel rt stackSkips (Level entry) = (Inr d, c')
        \<and> Level entry' = Level entry \<longrightarrow>
      snd (Format f rt stackSkips entry) = c'
      \<and> getSkipLevel rt' c' (Level entry') = (Inr d, c')
      \<and> snd (Format f rt' c' entry') = c')"
proof (intro conjI impI)
  assume "stackSkips level = Some d"
  then show "getSkipLevel rt stackSkips level = (Inr d, stackSkips)"
    and "getSkipLevel rt' stackSkips level = getSkipLevel rt stackSkips level"
    by (simp_all add: getSkipLevel_hit)
next
  assume "stackSkips l = Some d"
  then show "snd (getSkipLevel rt stackSkips level) l = Some d"
    and "snd (Format f rt stackSkips entry) l = Some d"
    by (simp_all add: Format_cache getSkipLevel_keeps)
next
  assume "getSkipLevel rt stackSkips level = (Inr d, c')"
  then have "c' level = Some d" by (rule getSkipLevel_stores)
  then show "getSkipLevel rt' c' level = (Inr d, c')" by (rule getSkipLevel_hit)
next
  assume a: "withSourceInfo f \<and> getSkipLevel rt stackSkips (Level entry) = (Inr d, c')
    \<and> Level entry' = Level entry"
  then show "snd (Format f rt stackSkips entry) = c'" by (simp add: Format_cache)
  from a have "c' (Level entry) = Some d" by (blast intro: getSkipLevel_stores)
  with a have stored: "c' (Level entry') = Some d" by simp
  then show "getSkipLevel rt' c' (Level entry') = (Inr d, c')" by (rule getSkipLevel_hit)
  with a show "snd (Format f rt' c' entry') = c'" by (simp add: Format_cache)
qed

theorem C3_cache_memo_witness:
  "getSkipLevel shallow_rt [InfoLevel \<mapsto> 3] InfoLevel = (Inr 3, [InfoLevel \<mapsto> 3])
   \<and> snd (Format (NewGCEFormatter True) shallow_rt [InfoLevel \<mapsto> 3] demo_entry) InfoLevel = Some 3
   \<and> getSkipLevel demo_rt Map.empty InfoLevel = (Inr 3, [InfoLevel \<mapsto> 3])
   \<and> snd (Format (NewGCEFormatter True) demo_rt Map.empty demo_entry) = [InfoLevel \<mapsto> 3]
   \<and> getSkipLevel shallow_rt [InfoLevel \<mapsto> 3] (Level demo_entry) = (Inr 3, [InfoLevel \<mapsto> 3])
   \<and> snd (Format (NewGCEFormatter True) shallow_rt [InfoLevel \<mapsto> 3] demo_entry) = [InfoLevel \<mapsto> 3]"
proof -
  let ?c = "[InfoLevel \<mapsto> 3] :: skip_cache" and ?f = "NewGCEFormatter True"
  have cached: "?c InfoLevel = Some 3" by simp
  have w: "withSourceInfo ?f" by (simp add: NewGCEFormatter_def)
  have first_call: "getSkipLevel demo_rt Map.empty (Level demo_entry) = (Inr 3, ?c)"
    using demo_getSkipLevel by (simp add: demo_entry_def)
  note hit = C3_cache_memo [of ?c InfoLevel 3 shallow_rt demo_rt InfoLevel ?f demo_entry ?c demo_entry]
  note miss = C3_cache_memo [of Map.empty InfoLevel 3 demo_rt shallow_rt InfoLevel ?f demo_entry ?c demo_entry]
  have 1: "getSkipLevel shallow_rt ?c InfoLevel = (Inr 3, ?c)"
    by (rule hit [THEN conjunct1, THEN mp, OF cached, THEN conjunct1])
  have 2: "snd (Format ?f shallow_rt ?c demo_entry) InfoLevel = Some 3"
    by (rule hit [THEN conjunct2, THEN conjunct1, THEN mp, OF cached, THEN conjunct2])
  have 3: "snd (Format ?f demo_rt Map.empty demo_entry) = ?c
      \<and> getSkipLevel shallow_rt ?c (Level demo_entry) = (Inr 3, ?c)
      \<and> snd (Format ?f shallow_rt ?c demo_entry) = ?c"
    by (rule miss [THEN conjunct2, THEN conjunct2, THEN conjunct2, THEN mp])
       (intro conjI w first_call refl)
  show ?thesis
    by (intro conjI 1 2 demo_getSkipLevel 3 [THEN conjunct1]
          3 [THEN conjunct2, THEN conjunct1] 3 [THEN conjunct2, THEN conjunct2])
qed

text \<open>
  C4. With source info enabled and no depth cached for the entry's level, if every slot
  of the 20-slot window names a function of logrus, \<open>Format\<close> returns
  \<open>ErrSkipNotFound\<close> and no bytes, and stores nothing in the cache. (A cached level is
  answered from the cache and no window is captured.) A depth that a walk does return
  lies between 1 and 20: it is never 0.
\<close>

theorem C4_skip_not_found:
  assumes "withSourceInfo f"
    and "stackSkips (Level entry) = None"
    and "\<forall>p\<in>set (runtime_Callers (frame_Callers rt # frame_getSkipLevel rt # stack rt) 3 20).
           HasPrefix (Func_Name (FuncForPC rt p)) logrus_prefix"
  shows "Format f rt stackSkips entry = (Inl ErrSkipNotFound, stackSkips)
    \<and> (\<forall>rt' d c'. getSkipLevel rt' stackSkips (Level entry) = (Inr d, c') \<longrightarrow> 1 \<le> d \<and> d \<le> 20)"
proof -
  have "getSkipLevel rt stackSkips (Level entry) = (Inl ErrSkipNotFound, stackSkips)"
    using assms(2) scan_callers_none [OF assms(3), of 0]
    by (simp add: getSkipLevel_def Let_def)
  then have "Format f rt stackSkips entry = (Inl ErrSkipNotFound, stackSkips)"
    using assms(1) by (simp add: Format_def Let_def)
  then show ?thesis using getSkipLevel_miss_range [of stackSkips "Level entry"] assms(2) by blast
qed

theorem C4_skip_not_found_witness:
  "Format (NewGCEFormatter True) deep_rt Map.empty demo_entry = (Inl ErrSkipNotFound, Map.empty)"
proof -
  have window: "runtime_Callers (frame_Callers deep_rt # frame_getSkipLevel deep_rt # stack deep_rt) 3 20
      = replicate 20 0x2020"
    by (simp add: runtime_Callers_def deep_rt_def)
  have name: "Func_Name (FuncForPC deep_rt 0x2020) = ''github.com/sirupsen/logrus.(*Entry).log''"
    by (simp add: FuncForPC_def Func_Name_def deep_rt_def demo_funcs_def)
  have "(Format (NewGCEFormatter True) deep_rt Map.empty demo_entry = (Inl ErrSkipNotFound, Map.empty))
     \<and> (\<forall>rt' d c'. getSkipLevel rt' Map.empty (Level demo_entry) = (Inr d, c') \<longrightarrow> 1 \<le> d \<and> d \<le> 20)"
  proof (rule C4_skip_not_found)
    show "withSourceInfo (NewGCEFormatter True)" by (simp add: NewGCEFormatter_def)
    show "(Map.empty :: skip_cache) (Level demo_entry) = None" by simp
    show "\<forall>p\<in>set (runtime_Callers (frame_Callers deep_rt # frame_getSkipLevel deep_rt # stack deep_rt) 3 20).
           HasPrefix (Func_Name (FuncForPC deep_rt p)) logrus_prefix"
      by (simp add: window name demo_names)
  qed
  then show ?thesis by blast
qed

subsection \<open>Marshal and the decoder\<close>

subsubsection \<open>UTF-8 and strings\<close>


lemma first_byte_props:
  "first_byte x = Some (sz, lo, hi) \<Longrightarrow> 2 \<le> sz \<and> sz \<le> 4 \<and> 0x80 \<le> lo \<and> hi \<le> 0xBF"
  by (auto simp: first_byte_def split: if_splits)

lemma utf8_len_Nil [simp]: "utf8_len [] = 0"
  by (simp add: utf8_len_def)

lemma utf8_len_ascii: "(of_char b :: nat) < 0x80 \<Longrightarrow> utf8_len (b # r) = 1"
  by (simp add: utf8_len_def)

lemma utf8_len_le: "utf8_len s \<le> length s"
  by (auto simp: utf8_len_def split: list.splits option.splits dest!: first_byte_props)

lemma utf8_len_append: "utf8_len s \<noteq> 0 \<Longrightarrow> utf8_len (s @ t) = utf8_len s"
  by (auto simp: utf8_len_def split: list.splits option.splits if_splits)

lemma utf8_len_take: "utf8_len (take (utf8_len s) s) = utf8_len s"
proof (cases "utf8_len s = 0")
  case True
  then show ?thesis by simp
next
  case False
  then show ?thesis
    by (auto simp: utf8_len_def min_def take_Cons' split: list.splits option.splits if_splits
        dest!: first_byte_props)
qed

lemma utf8_len_Cons_high:
  assumes "0x80 \<le> (of_char b :: nat)" and "utf8_len (b # r) \<noteq> 0"
  obtains b1 r1 where "r = b1 # r1" and "0x80 \<le> (of_char b1 :: nat)"
    and "2 \<le> utf8_len (b # r)" and "utf8_len (b # r) - 2 \<le> length r1"
    and "list_all cont (take (utf8_len (b # r) - 2) r1)"
  using assms
  by (auto simp: utf8_len_def byte_in_def split: list.splits option.splits if_splits
      dest!: first_byte_props)

lemma utf8_len_high:
  assumes "0x80 \<le> (of_char b :: nat)" and "c \<in> set (take (utf8_len (b # r)) (b # r))"
  shows "0x80 \<le> (of_char c :: nat)"
proof (cases "utf8_len (b # r) = 0")
  case True
  with assms show ?thesis by simp
next
  case False
  from utf8_len_Cons_high [OF assms(1) False] obtain b1 r1 where
    r: "r = b1 # r1" and b1: "0x80 \<le> (of_char b1 :: nat)" and two: "2 \<le> utf8_len (b # r)"
    and conts: "list_all cont (take (utf8_len (b # r) - 2) r1)" by blast
  define n where "n = utf8_len (b # r) - 2"
  have "utf8_len (b # r) = Suc (Suc n)" using two by (simp add: n_def)
  then have "take (utf8_len (b # r)) (b # r) = b # b1 # take n r1" by (simp add: r)
  with assms(2) have "c = b \<or> c = b1 \<or> c \<in> set (take n r1)" by auto
  moreover have "\<forall>x\<in>set (take n r1). 0x80 \<le> (of_char x :: nat)"
    using conts by (auto simp: n_def list_all_iff cont_def byte_in_def)
  ultimately show ?thesis using assms(1) b1 by blast
qed

lemma valid_utf8_append: "valid_utf8 xs \<Longrightarrow> valid_utf8 ys \<Longrightarrow> valid_utf8 (xs @ ys)"
proof (induction xs rule: valid_utf8.induct)
  case 1
  then show ?case by simp
next
  case (2 b r)
  from "2.prems"(1) have len: "utf8_len (b # r) \<noteq> 0"
    and tl: "valid_utf8 (drop (utf8_len (b # r) - 1) r)" by simp_all
  have app: "utf8_len (b # r @ ys) = utf8_len (b # r)"
    using utf8_len_append [OF len, of ys] by simp
  have "utf8_len (b # r) - 1 \<le> length r" using utf8_len_le [of "b # r"] by simp
  then have "drop (utf8_len (b # r) - 1) (r @ ys) = drop (utf8_len (b # r) - 1) r @ ys" by simp
  with "2.IH" [OF tl "2.prems"(2)] len app show ?case by simp
qed

lemma valid_utf8_ascii: "\<forall>c\<in>set s. (of_char c :: nat) < 0x80 \<Longrightarrow> valid_utf8 s"
  by (induction s) (simp_all add: utf8_len_ascii)

lemma valid_utf8_seq: "utf8_len s \<noteq> 0 \<Longrightarrow> valid_utf8 (take (utf8_len s) s)"
proof (cases s)
  case Nil
  then show ?thesis by simp
next
  case (Cons b r)
  assume nz: "utf8_len s \<noteq> 0"
  define n where "n = utf8_len s"
  have "take n s = b # take (n - 1) r" using nz Cons by (cases n) (simp_all add: n_def)
  moreover have "utf8_len (take n s) = n" by (simp add: n_def utf8_len_take)
  ultimately show ?thesis using nz by (simp add: n_def [symmetric])
qed

lemma sanitize_valid: "valid_utf8 s \<Longrightarrow> sanitize s = s"
proof (induction s rule: sanitize.induct)
  case 1
  then show ?case by simp
next
  case (2 b r)
  from "2.prems" have len: "utf8_len (b # r) \<noteq> 0"
    and tl: "valid_utf8 (drop (utf8_len (b # r) - 1) r)" by simp_all
  define n where "n = utf8_len (b # r)"
  have "sanitize (drop (n - 1) r) = drop (n - 1) r"
    using "2.IH"(2) [OF len] tl by (simp add: n_def)
  moreover have "take n (b # r) @ drop (n - 1) r = b # r"
    using len by (cases n) (simp_all add: n_def)
  ultimately show ?case using len by (simp add: n_def [symmetric])
qed


lemma hexval_hexdigit: "n < 16 \<Longrightarrow> hexval (hexdigit n) = Some n"
proof -
  assume "n < 16"
  then have "n = 0 \<or> n = 1 \<or> n = 2 \<or> n = 3 \<or> n = 4 \<or> n = 5 \<or> n = 6 \<or> n = 7
    \<or> n = 8 \<or> n = 9 \<or> n = 10 \<or> n = 11 \<or> n = 12 \<or> n = 13 \<or> n = 14 \<or> n = 15"
    by presburger
  then show ?thesis
    by (elim disjE) (simp_all add: hexdigit_def hexval_def)
qed

lemma hex4_byte: "x < 256 \<Longrightarrow> hex4 (CHR ''0'') (CHR ''0'') (hexdigit (x div 16)) (hexdigit (x mod 16)) = Some x"
proof -
  assume "x < 256"
  then have "x div 16 < 16" by simp
  then have "hexval (hexdigit (x div 16)) = Some (x div 16)" by (rule hexval_hexdigit)
  moreover have "hexval (hexdigit (x mod 16)) = Some (x mod 16)" by (rule hexval_hexdigit) simp
  moreover have "hexval (CHR ''0'') = Some 0" by (simp add: hexval_def)
  ultimately show ?thesis by (simp add: hex4_def)
qed

declare parse_chars.simps(2) [simp del]

lemma parse_chars_plain:
  "c \<noteq> quote \<Longrightarrow> c \<noteq> backslash \<Longrightarrow> 0x20 \<le> (of_char c :: nat) \<Longrightarrow>
   parse_chars (c # t) = after [c] (parse_chars t)"
  by (simp add: parse_chars.simps(2) after_def split: option.splits)

lemma high_not_special:
  "0x80 \<le> (of_char c :: nat) \<Longrightarrow> c \<noteq> quote \<and> c \<noteq> backslash \<and> 0x20 \<le> (of_char c :: nat)"
  by (auto simp: quote_def backslash_def)

lemma after_after: "after xs (after ys res) = after (xs @ ys) res"
  by (simp add: after_def split: option.splits)

lemma after_Nil: "after [] res = res"
  by (simp add: after_def split: option.splits)

lemma parse_chars_high:
  "\<forall>c\<in>set xs. 0x80 \<le> (of_char c :: nat) \<Longrightarrow> parse_chars (xs @ t) = after xs (parse_chars t)"
proof (induction xs)
  case Nil
  then show ?case by (simp add: after_Nil)
next
  case (Cons c xs)
  then have "parse_chars (c # xs @ t) = after [c] (parse_chars (xs @ t))"
    using high_not_special [of c] by (simp add: parse_chars_plain)
  with Cons show ?case by (simp add: after_after)
qed

lemma parse_chars_u:
  "hex4 a b c d = Some cp \<Longrightarrow> utf8_encode cp = Some bs \<Longrightarrow>
   parse_chars (backslash # CHR ''u'' # a # b # c # d # t) = after bs (parse_chars t)"
  by (simp add: parse_chars.simps(2) after_def quote_def backslash_def split: option.splits)

lemma parse_chars_escape_byte:
  assumes "(of_char b :: nat) < 0x80"
  shows "parse_chars (escape_byte b @ t) = after [b] (parse_chars t)"
proof -
  consider (safe) "htmlSafeSet b"
    | (self) "\<not> htmlSafeSet b" "b = backslash \<or> b = quote"
    | (short) "\<not> htmlSafeSet b" "b = CHR 0x0A \<or> b = CHR 0x0D \<or> b = CHR 0x09"
    | (long) "\<not> htmlSafeSet b" "b \<noteq> backslash" "b \<noteq> quote" "b \<noteq> CHR 0x0A" "b \<noteq> CHR 0x0D"
        "b \<noteq> CHR 0x09"
    by blast
  then show ?thesis
  proof cases
    case safe
    then have "b \<noteq> quote" "b \<noteq> backslash" "0x20 \<le> (of_char b :: nat)"
      by (simp_all add: htmlSafeSet_def)
    with safe show ?thesis by (simp add: escape_byte_def parse_chars_plain)
  next
    case self
    then show ?thesis
      by (auto simp: escape_byte_def parse_chars.simps(2) after_def unescape_def quote_def
          backslash_def split: option.splits)
  next
    case short
    then show ?thesis
      by (auto simp: escape_byte_def parse_chars.simps(2) after_def unescape_def quote_def
          backslash_def split: option.splits)
  next
    case long
    have "hex4 (CHR ''0'') (CHR ''0'') (hexdigit (of_char b div 16)) (hexdigit (of_char b mod 16))
        = Some (of_char b)"
      using assms by (intro hex4_byte) simp
    moreover have "utf8_encode (of_char b) = Some [b]"
      using assms by (simp add: utf8_encode_def)
    ultimately have "parse_chars (backslash # CHR ''u'' # CHR ''0'' # CHR ''0''
        # hexdigit (of_char b div 16) # hexdigit (of_char b mod 16) # t) = after [b] (parse_chars t)"
      by (rule parse_chars_u)
    with long show ?thesis by (simp add: escape_byte_def)
  qed
qed


lemma take3_eq: "take 3 s = [x, y, z] \<Longrightarrow> s = x # y # z # drop 3 s"
  using append_take_drop_id [of 3 s] by simp

lemma utf8_len_E280:
  "z = CHR 0xA8 \<or> z = CHR 0xA9 \<Longrightarrow> utf8_len (CHR 0xE2 # CHR 0x80 # z # t) = 3"
  by (auto simp: utf8_len_def first_byte_def byte_in_def cont_def)

lemma hex4_fffd: "hex4 (CHR ''f'') (CHR ''f'') (CHR ''f'') (CHR ''d'') = Some 0xFFFD"
  by (simp add: hex4_def hexval_def)

lemma hex4_2028: "hex4 (CHR ''2'') (CHR ''0'') (CHR ''2'') (CHR ''8'') = Some 0x2028"
  by (simp add: hex4_def hexval_def)

lemma hex4_2029: "hex4 (CHR ''2'') (CHR ''0'') (CHR ''2'') (CHR ''9'') = Some 0x2029"
  by (simp add: hex4_def hexval_def)

lemma char_of_eqI: "of_char c = (n::nat) \<Longrightarrow> char_of n = c"
  by auto

lemma utf8_encode_fffd: "utf8_encode 0xFFFD = Some [CHR 0xEF, CHR 0xBF, CHR 0xBD]"
  by (simp add: utf8_encode_def) (intro conjI char_of_eqI; simp)

lemma utf8_encode_2028: "utf8_encode 0x2028 = Some [CHR 0xE2, CHR 0x80, CHR 0xA8]"
  by (simp add: utf8_encode_def) (intro conjI char_of_eqI; simp)

lemma utf8_encode_2029: "utf8_encode 0x2029 = Some [CHR 0xE2, CHR 0x80, CHR 0xA9]"
  by (simp add: utf8_encode_def) (intro conjI char_of_eqI; simp)

lemma after_Some: "after xs (Some (s, rest)) = Some (xs @ s, rest)"
  by (simp add: after_def)

lemma string_body_ascii:
  "(of_char b :: nat) < 0x80 \<Longrightarrow> string_body (b # r) = escape_byte b @ string_body r"
  by simp

lemma string_body_bad:
  "\<not> (of_char b :: nat) < 0x80 \<Longrightarrow> utf8_len (b # r) = 0 \<Longrightarrow>
   string_body (b # r) = [backslash, CHR ''u'', CHR ''f'', CHR ''f'', CHR ''f'', CHR ''d''] @ string_body r"
  by simp

lemma string_body_ls:
  "\<not> (of_char b :: nat) < 0x80 \<Longrightarrow> utf8_len (b # r) \<noteq> 0 \<Longrightarrow>
   take 3 (b # r) = [CHR 0xE2, CHR 0x80, CHR 0xA8] \<Longrightarrow>
   string_body (b # r) = [backslash, CHR ''u'', CHR ''2'', CHR ''0'', CHR ''2'', CHR ''8'']
     @ string_body (drop 2 r)"
  by (simp only: string_body.simps if_True if_False) simp

lemma string_body_ps:
  "\<not> (of_char b :: nat) < 0x80 \<Longrightarrow> utf8_len (b # r) \<noteq> 0 \<Longrightarrow>
   take 3 (b # r) \<noteq> [CHR 0xE2, CHR 0x80, CHR 0xA8] \<Longrightarrow>
   take 3 (b # r) = [CHR 0xE2, CHR 0x80, CHR 0xA9] \<Longrightarrow>
   string_body (b # r) = [backslash, CHR ''u'', CHR ''2'', CHR ''0'', CHR ''2'', CHR ''9'']
     @ string_body (drop 2 r)"
  by (simp only: string_body.simps if_True if_False) simp

lemma string_body_seq:
  "\<not> (of_char b :: nat) < 0x80 \<Longrightarrow> utf8_len (b # r) \<noteq> 0 \<Longrightarrow>
   take 3 (b # r) \<noteq> [CHR 0xE2, CHR 0x80, CHR 0xA8] \<Longrightarrow>
   take 3 (b # r) \<noteq> [CHR 0xE2, CHR 0x80, CHR 0xA9] \<Longrightarrow>
   string_body (b # r) = take (utf8_len (b # r)) (b # r) @ string_body (drop (utf8_len (b # r) - 1) r)"
  by (simp only: string_body.simps if_True if_False)

lemma sanitize_bad:
  "utf8_len (b # r) = 0 \<Longrightarrow> sanitize (b # r) = [CHR 0xEF, CHR 0xBF, CHR 0xBD] @ sanitize r"
  by simp

lemma sanitize_seq:
  "utf8_len (b # r) \<noteq> 0 \<Longrightarrow>
   sanitize (b # r) = take (utf8_len (b # r)) (b # r) @ sanitize (drop (utf8_len (b # r) - 1) r)"
  by simp

declare string_body.simps(2) [simp del] sanitize.simps(2) [simp del]

lemma parse_chars_string_body:
  "parse_chars (string_body s @ quote # rest) = Some (sanitize s, rest)"
proof (induction s rule: string_body.induct)
  case 1
  show ?case by (simp add: parse_chars.simps(2))
next
  case (2 b r)
  let ?n = "utf8_len (b # r)"
  let ?t = "quote # rest"
  consider (ascii) "(of_char b :: nat) < 0x80"
    | (bad) "\<not> (of_char b :: nat) < 0x80" "?n = 0"
    | (ls) "\<not> (of_char b :: nat) < 0x80" "?n \<noteq> 0" "take 3 (b # r) = [CHR 0xE2, CHR 0x80, CHR 0xA8]"
    | (ps) "\<not> (of_char b :: nat) < 0x80" "?n \<noteq> 0" "take 3 (b # r) \<noteq> [CHR 0xE2, CHR 0x80, CHR 0xA8]"
        "take 3 (b # r) = [CHR 0xE2, CHR 0x80, CHR 0xA9]"
    | (seq) "\<not> (of_char b :: nat) < 0x80" "?n \<noteq> 0" "take 3 (b # r) \<noteq> [CHR 0xE2, CHR 0x80, CHR 0xA8]"
        "take 3 (b # r) \<noteq> [CHR 0xE2, CHR 0x80, CHR 0xA9]"
    by blast
  then show ?case
  proof cases
    case ascii
    have "parse_chars (escape_byte b @ string_body r @ ?t) = after [b] (parse_chars (string_body r @ ?t))"
      using ascii by (rule parse_chars_escape_byte)
    also have "\<dots> = Some (b # sanitize r, rest)"
      using "2.IH"(1) [OF ascii] by (simp add: after_Some)
    finally show ?thesis
      using ascii by (simp add: string_body_ascii sanitize_seq utf8_len_ascii)
  next
    case bad
    have "parse_chars ([backslash, CHR ''u'', CHR ''f'', CHR ''f'', CHR ''f'', CHR ''d'']
        @ string_body r @ ?t) = after [CHR 0xEF, CHR 0xBF, CHR 0xBD] (parse_chars (string_body r @ ?t))"
      using parse_chars_u [OF hex4_fffd utf8_encode_fffd] by simp
    also have "\<dots> = Some ([CHR 0xEF, CHR 0xBF, CHR 0xBD] @ sanitize r, rest)"
      using "2.IH"(2) [OF bad] by (simp add: after_Some)
    finally show ?thesis
      by (simp add: string_body_bad [OF bad] sanitize_bad [OF bad(2)])
  next
    case ls
    from take3_eq [OF ls(3)] have shape: "b # r = CHR 0xE2 # CHR 0x80 # CHR 0xA8 # drop 3 (b # r)" .
    have "?n = 3"
      by (subst shape) (simp add: utf8_len_E280)
    then have san: "sanitize (b # r) = [CHR 0xE2, CHR 0x80, CHR 0xA8] @ sanitize (drop 2 r)"
      using sanitize_seq [OF ls(2)] ls(3) by simp
    have "parse_chars ([backslash, CHR ''u'', CHR ''2'', CHR ''0'', CHR ''2'', CHR ''8'']
        @ string_body (drop 2 r) @ ?t)
        = after [CHR 0xE2, CHR 0x80, CHR 0xA8] (parse_chars (string_body (drop 2 r) @ ?t))"
      using parse_chars_u [OF hex4_2028 utf8_encode_2028] by simp
    also have "\<dots> = Some ([CHR 0xE2, CHR 0x80, CHR 0xA8] @ sanitize (drop 2 r), rest)"
      using "2.IH"(3) [OF ls] by (simp add: after_Some)
    finally show ?thesis
      by (simp add: string_body_ls [OF ls] san)
  next
    case ps
    from take3_eq [OF ps(4)] have shape: "b # r = CHR 0xE2 # CHR 0x80 # CHR 0xA9 # drop 3 (b # r)" .
    have "?n = 3"
      by (subst shape) (simp add: utf8_len_E280)
    then have san: "sanitize (b # r) = [CHR 0xE2, CHR 0x80, CHR 0xA9] @ sanitize (drop 2 r)"
      using sanitize_seq [OF ps(2)] ps(4) by simp
    have "parse_chars ([backslash, CHR ''u'', CHR ''2'', CHR ''0'', CHR ''2'', CHR ''9'']
        @ string_body (drop 2 r) @ ?t)
        = after [CHR 0xE2, CHR 0x80, CHR 0xA9] (parse_chars (string_body (drop 2 r) @ ?t))"
      using parse_chars_u [OF hex4_2029 utf8_encode_2029] by simp
    also have "\<dots> = Some ([CHR 0xE2, CHR 0x80, CHR 0xA9] @ sanitize (drop 2 r), rest)"
      using "2.IH"(4) [OF ps] by (simp add: after_Some)
    finally show ?thesis
      by (simp add: string_body_ps [OF ps] san)
  next
    case seq
    have high: "\<forall>c\<in>set (take ?n (b # r)). 0x80 \<le> (of_char c :: nat)"
      using seq(1) utf8_len_high [of b _ r] by auto
    have "parse_chars (take ?n (b # r) @ string_body (drop (?n - 1) r) @ ?t)
        = after (take ?n (b # r)) (parse_chars (string_body (drop (?n - 1) r) @ ?t))"
      using high by (rule parse_chars_high)
    also have "\<dots> = Some (take ?n (b # r) @ sanitize (drop (?n - 1) r), rest)"
      using "2.IH"(5) [OF seq] by (simp add: after_Some)
    finally show ?thesis
      by (simp add: string_body_seq [OF seq] sanitize_seq [OF seq(2)])
  qed
qed


subsubsection \<open>Numbers\<close>

declare digits_nat.simps [simp del]

lemma of_char_digit_char: "d < 10 \<Longrightarrow> (of_char (digit_char d) :: nat) = 48 + d"
  by (simp add: digit_char_def)

lemma digits_nat_is_digit: "c \<in> set (digits_nat n) \<Longrightarrow> is_digit c"
proof (induction n rule: digits_nat.induct)
  case (1 n)
  show ?case
  proof (cases "n < 10")
    case True
    with "1.prems" show ?thesis
      by (simp add: digits_nat.simps [of n] is_digit_def of_char_digit_char)
  next
    case False
    have "n mod 10 < 10" by simp
    then have "is_digit (digit_char (n mod 10))"
      by (simp add: is_digit_def of_char_digit_char)
    with False "1.prems" "1.IH" show ?thesis
      by (auto simp: digits_nat.simps [of n])
  qed
qed

lemma digits_nat_nonempty: "digits_nat n \<noteq> []"
  by (subst digits_nat.simps) simp

lemma digits_value_snoc: "digits_value (xs @ [c]) = 10 * digits_value xs + (of_char c - 48)"
  by (simp add: digits_value_def)

lemma digits_value_digits_nat: "digits_value (digits_nat n) = n"
proof (induction n rule: digits_nat.induct)
  case (1 n)
  show ?case
  proof (cases "n < 10")
    case True
    then show ?thesis
      by (simp add: digits_nat.simps [of n] digits_value_def of_char_digit_char)
  next
    case False
    have "n mod 10 < 10" by simp
    then have "(of_char (digit_char (n mod 10)) :: nat) - 48 = n mod 10"
      by (simp add: of_char_digit_char)
    with False "1.IH" show ?thesis
      by (simp add: digits_nat.simps [of n] digits_value_snoc)
  qed
qed

lemma hd_digits_nat: "0 < n \<Longrightarrow> hd (digits_nat n) \<noteq> CHR ''0''"
proof (induction n rule: digits_nat.induct)
  case (1 n)
  show ?case
  proof (cases "n < 10")
    case True
    have "(of_char (digit_char n) :: nat) = 48 + n" using True by (rule of_char_digit_char)
    with "1.prems" have "(of_char (digit_char n) :: nat) \<noteq> of_char (CHR ''0'')" by simp
    then have "digit_char n \<noteq> CHR ''0''" by auto
    with True show ?thesis by (simp add: digits_nat.simps [of n])
  next
    case False
    then have "0 < n div 10" by simp
    with False "1.IH" digits_nat_nonempty [of "n div 10"] show ?thesis
      by (simp add: digits_nat.simps [of n])
  qed
qed

lemma digits_nat_small: "n < 10 \<Longrightarrow> digits_nat n = [digit_char n]"
  by (simp add: digits_nat.simps [of n])

lemma parse_nat_digits_nat: "stops rest \<Longrightarrow> parse_nat (digits_nat n @ rest) = Some (n, rest)"
proof -
  assume st: "stops rest"
  have tw: "takeWhile is_digit (digits_nat n @ rest) = digits_nat n"
    using st digits_nat_is_digit [of _ n]
    by (cases rest) (auto simp: stops_def takeWhile_append2)
  have dw: "dropWhile is_digit (digits_nat n @ rest) = rest"
    using st digits_nat_is_digit [of _ n]
    by (cases rest) (auto simp: stops_def dropWhile_append2)
  have "\<not> (hd (digits_nat n) = CHR ''0'' \<and> 1 < length (digits_nat n))"
  proof (cases "n = 0")
    case True
    then show ?thesis by (simp add: digits_nat_small)
  next
    case False
    then show ?thesis using hd_digits_nat [of n] by simp
  qed
  then show ?thesis
    by (simp add: parse_nat_def Let_def tw dw digits_nat_nonempty digits_value_digits_nat)
qed

lemma hd_digits_nat_digit: "is_digit (hd (digits_nat n))"
  using digits_nat_nonempty [of n] digits_nat_is_digit [of "hd (digits_nat n)" n] by simp

lemma parse_int_encode_int: "stops rest \<Longrightarrow> parse_int (encode_int i @ rest) = Some (i, rest)"
proof (cases "i < 0")
  case True
  assume "stops rest"
  then have "parse_nat (digits_nat (nat (- i)) @ rest) = Some (nat (- i), rest)"
    by (rule parse_nat_digits_nat)
  with True show ?thesis by (simp add: parse_int_def encode_int_def)
next
  case False
  assume "stops rest"
  then have p: "parse_nat (digits_nat (nat i) @ rest) = Some (nat i, rest)"
    by (rule parse_nat_digits_nat)
  obtain c cs where cs: "digits_nat (nat i) = c # cs"
    using digits_nat_nonempty [of "nat i"] by (cases "digits_nat (nat i)") auto
  have "is_digit c" using hd_digits_nat_digit [of "nat i"] cs by simp
  then have "c \<noteq> CHR ''-''" by (auto simp: is_digit_def)
  with False p cs show ?thesis by (simp add: parse_int_def encode_int_def)
qed


subsubsection \<open>Values\<close>

lemma stops_simps [simp]:
  "stops []" "stops (CHR '','' # r)" "stops (CHR '']'' # r)" "stops (CHR ''}'' # r)"
  by (simp_all add: stops_def is_digit_def)

lemma encode_int_hd:
  obtains c cs where "encode_int i = c # cs" and "c = CHR ''-'' \<or> is_digit c"
proof (cases "i < 0")
  case True
  then show ?thesis using that by (simp add: encode_int_def)
next
  case False
  obtain c cs where cs: "digits_nat (nat i) = c # cs"
    using digits_nat_nonempty [of "nat i"] by (cases "digits_nat (nat i)") auto
  moreover have "is_digit c" using hd_digits_nat_digit [of "nat i"] cs by simp
  ultimately show ?thesis using that False by (simp add: encode_int_def)
qed

lemma parse_value_int:
  assumes "stops rest" and "length (encode_int i) \<le> n"
  shows "parse_value n (encode_int i @ rest) = Some (JNum i, rest)"
proof -
  obtain c cs where cs: "encode_int i = c # cs" and c: "c = CHR ''-'' \<or> is_digit c"
    by (rule encode_int_hd)
  obtain m where n: "n = Suc m" using assms(2) cs by (cases n) auto
  have nots: "c \<noteq> CHR ''{''" "c \<noteq> CHR ''[''" "c \<noteq> quote" "c \<noteq> CHR ''n''" "c \<noteq> CHR ''t''"
    "c \<noteq> CHR ''f''"
    using c by (auto simp: is_digit_def quote_def)
  have "parse_int (c # cs @ rest) = Some (i, rest)"
    using parse_int_encode_int [OF assms(1), of i] cs by simp
  with nots show ?thesis by (simp add: n cs)
qed

lemma parse_value_string:
  "0 < n \<Longrightarrow> parse_value n (encode_string s @ rest) = Some (JStr (sanitize s), rest)"
  by (cases n) (simp_all add: encode_string_def quote_def parse_chars_string_body [unfolded quote_def])

lemma enc_hd:
  assumes "encodable v"
  shows "enc v \<noteq> [] \<and> hd (enc v) \<noteq> CHR '']'' \<and> hd (enc v) \<noteq> CHR ''}''"
proof (cases v)
  case (VInt i)
  obtain c cs where cs: "encode_int i = c # cs" and c: "c = CHR ''-'' \<or> is_digit c"
    by (rule encode_int_hd)
  from c have "c \<noteq> CHR '']''" "c \<noteq> CHR ''}''" by (auto simp: is_digit_def)
  with cs show ?thesis using VInt by simp
qed (use assms in \<open>simp_all add: encode_string_def quote_def\<close>)

lemma join_with_Cons:
  "join_with sep (x # xs) = (if xs = [] then x else x @ sep @ join_with sep xs)"
  by (cases xs) simp_all

lemma parse_elems_join:
  "vs \<noteq> [] \<Longrightarrow> \<forall>v\<in>set vs. reads_back v \<Longrightarrow> length (join_with '','' (map enc vs)) < n \<Longrightarrow>
   parse_elems n (join_with '','' (map enc vs) @ CHR '']'' # rest) = Some (map denote vs, rest)"
proof (induction vs arbitrary: n)
  case Nil
  then show ?case by simp
next
  case (Cons v vs)
  obtain m where n: "n = Suc m" using Cons.prems(3) by (cases n) auto
  have rb: "reads_back v" using Cons.prems(2) by simp
  show ?case
  proof (cases "vs = []")
    case True
    have "length (enc v) \<le> m" using Cons.prems(3) True n by simp
    then have "parse_value m (enc v @ CHR '']'' # rest) = Some (denote v, CHR '']'' # rest)"
      using rb by (simp add: reads_back_def)
    then show ?thesis using True by (simp add: n)
  next
    case False
    have len: "length (enc v) \<le> m" "length (join_with '','' (map enc vs)) < m"
      using Cons.prems(3) False n by (simp_all add: join_with_Cons)
    let ?tail = "join_with '','' (map enc vs) @ CHR '']'' # rest"
    have "parse_value m (enc v @ CHR '','' # ?tail) = Some (denote v, CHR '','' # ?tail)"
      using rb len(1) by (simp add: reads_back_def)
    moreover have "parse_elems m ?tail = Some (map denote vs, rest)"
      using Cons.IH [OF False _ len(2)] Cons.prems(2) by simp
    ultimately show ?thesis using False by (simp add: n join_with_Cons)
  qed
qed

lemma parse_member:
  assumes "reads_back (snd kv)" and "length (member_text kv) \<le> m" and "stops rest"
  shows "parse_chars (string_body (fst kv) @ quote # CHR '':'' # enc (snd kv) @ rest)
      = Some (sanitize (fst kv), CHR '':'' # enc (snd kv) @ rest)"
    and "parse_value m (enc (snd kv) @ rest) = Some (denote (snd kv), rest)"
proof -
  show "parse_chars (string_body (fst kv) @ quote # CHR '':'' # enc (snd kv) @ rest)
      = Some (sanitize (fst kv), CHR '':'' # enc (snd kv) @ rest)"
    by (rule parse_chars_string_body)
  have "length (enc (snd kv)) \<le> m" using assms(2) by (simp add: member_text_def)
  then show "parse_value m (enc (snd kv) @ rest) = Some (denote (snd kv), rest)"
    using assms(1,3) by (simp add: reads_back_def)
qed

lemma parse_members_join:
  "ms \<noteq> [] \<Longrightarrow> \<forall>kv\<in>set ms. reads_back (snd kv) \<Longrightarrow>
   length (join_with '','' (map member_text ms)) < n \<Longrightarrow>
   parse_members n (join_with '','' (map member_text ms) @ CHR ''}'' # rest)
     = Some (map member_json ms, rest)"
proof (induction ms arbitrary: n)
  case Nil
  then show ?case by simp
next
  case (Cons kv ms)
  obtain m where n: "n = Suc m" using Cons.prems(3) by (cases n) auto
  have rb: "reads_back (snd kv)" using Cons.prems(2) by simp
  have mt: "member_text kv = quote # string_body (fst kv) @ quote # CHR '':'' # enc (snd kv)"
    by (simp add: member_text_def encode_string_def)
  show ?case
  proof (cases "ms = []")
    case True
    have "length (member_text kv) \<le> m" using Cons.prems(3) True n by simp
    from parse_member [OF rb this, of "CHR ''}'' # rest"]
    show ?thesis using True by (simp add: n mt member_json_def)
  next
    case False
    have len: "length (member_text kv) \<le> m" "length (join_with '','' (map member_text ms)) < m"
      using Cons.prems(3) False n by (simp_all add: join_with_Cons)
    let ?tail = "join_with '','' (map member_text ms) @ CHR ''}'' # rest"
    have "parse_members m ?tail = Some (map member_json ms, rest)"
      using Cons.IH [OF False _ len(2)] Cons.prems(2) by simp
    with parse_member [OF rb len(1), of "CHR '','' # ?tail"]
    show ?thesis using False by (simp add: n mt join_with_Cons member_json_def)
  qed
qed


lemma hd_join_with: "xs \<noteq> [] \<Longrightarrow> hd xs \<noteq> [] \<Longrightarrow> hd (join_with sep xs @ t) = hd (hd xs)"
  by (cases xs) (auto simp: join_with_Cons)

lemma join_with_nonempty: "xs \<noteq> [] \<Longrightarrow> hd xs \<noteq> [] \<Longrightarrow> join_with sep xs @ t \<noteq> []"
  by (cases xs) (auto simp: join_with_Cons)

lemma enc_VMap: "enc (VMap m) = CHR ''{'' # join_with '','' (map member_text (sort_key fst m)) @ ''}''"
  by (simp add: member_text_def [abs_def])

lemma denote_VMap: "denote (VMap m) = JObj (map member_json (sort_key fst m))"
  by (simp add: member_json_def [abs_def])

lemma enc_reads_back: "encodable v \<Longrightarrow> reads_back v"
proof (induction v rule: enc.induct)
  case 1
  show ?case
  proof (unfold reads_back_def, intro allI impI)
    fix n rest assume "length (enc VNil) \<le> n"
    then obtain m where "n = Suc m" by (cases n) auto
    then show "parse_value n (enc VNil @ rest) = Some (denote VNil, rest)"
      by (simp add: quote_def)
  qed
next
  case (2 b)
  show ?case
  proof (unfold reads_back_def, intro allI impI)
    fix n rest assume "length (enc (VBool b)) \<le> n"
    then obtain m where "n = Suc m" by (cases n) (auto split: if_splits)
    then show "parse_value n (enc (VBool b) @ rest) = Some (denote (VBool b), rest)"
      by (simp add: quote_def)
  qed
next
  case (3 i)
  show ?case by (simp add: reads_back_def parse_value_int)
next
  case (4 s)
  show ?case
  proof (unfold reads_back_def, intro allI impI)
    fix n rest assume "length (enc (VString s)) \<le> n"
    then have "0 < n" by (simp add: encode_string_def)
    then show "parse_value n (enc (VString s) @ rest) = Some (denote (VString s), rest)"
      by (simp add: parse_value_string)
  qed
next
  case (5 m)
  show ?case
  proof (unfold reads_back_def, intro allI impI)
    fix n rest assume "length (enc (VError m)) \<le> n"
    then obtain k where "n = Suc k" by (cases n) auto
    then show "parse_value n (enc (VError m) @ rest) = Some (denote (VError m), rest)"
      by simp
  qed
next
  case (6 vs)
  have all: "\<forall>v\<in>set vs. reads_back v"
    using "6.IH" "6.prems" by (simp add: list_all_iff)
  show ?case
  proof (unfold reads_back_def, intro allI impI)
    fix n rest assume len: "length (enc (VSlice vs)) \<le> n"
    then obtain m where n: "n = Suc m" by (cases n) auto
    show "parse_value n (enc (VSlice vs) @ rest) = Some (denote (VSlice vs), rest)"
    proof (cases "vs = []")
      case True
      then show ?thesis by (simp add: n)
    next
      case False
      let ?body = "join_with '','' (map enc vs)"
      have "encodable (hd vs)" using False "6.prems" by (cases vs) simp_all
      then have first: "hd (map enc vs) \<noteq> []" "hd (hd (map enc vs)) \<noteq> CHR '']''"
        using False enc_hd [of "hd vs"] by (simp_all add: hd_map)
      have ne: "?body @ CHR '']'' # rest \<noteq> []" by simp
      have hd: "hd (?body @ CHR '']'' # rest) \<noteq> CHR '']''"
        using hd_join_with [of "map enc vs" "'',''" "CHR '']'' # rest"] False first by simp
      have "length ?body < m" using len n by simp
      then have "parse_elems m (?body @ CHR '']'' # rest) = Some (map denote vs, rest)"
        using parse_elems_join [OF False all] by blast
      with ne hd show ?thesis by (simp add: n)
    qed
  qed
next
  case (7 m)
  let ?ms = "sort_key fst m"
  have all: "\<forall>kv\<in>set ?ms. reads_back (snd kv)"
    using "7.IH" "7.prems" by (simp add: list_all_iff)
  show ?case
  proof (unfold reads_back_def, intro allI impI)
    fix n rest assume len: "length (enc (VMap m)) \<le> n"
    then obtain k where n: "n = Suc k" by (cases n) auto
    show "parse_value n (enc (VMap m) @ rest) = Some (denote (VMap m), rest)"
    proof (cases "?ms = []")
      case True
      then show ?thesis unfolding enc_VMap denote_VMap by (simp add: n)
    next
      case False
      let ?body = "join_with '','' (map member_text ?ms)"
      have first: "hd (map member_text ?ms) \<noteq> []" "hd (hd (map member_text ?ms)) = quote"
        using False by (simp_all add: hd_map member_text_def encode_string_def)
      have ne: "?body @ CHR ''}'' # rest \<noteq> []" by simp
      have "hd (?body @ CHR ''}'' # rest) = quote"
        using hd_join_with [of "map member_text ?ms" "'',''" "CHR ''}'' # rest"] False first by simp
      then have hd: "hd (?body @ CHR ''}'' # rest) \<noteq> CHR ''}''" by (simp add: quote_def)
      have "length ?body < k" using len [unfolded enc_VMap] n by simp
      then have "parse_members k (?body @ CHR ''}'' # rest) = Some (map member_json ?ms, rest)"
        using parse_members_join [OF False all] by blast
      with ne hd show ?thesis unfolding enc_VMap denote_VMap by (simp add: n)
    qed
  qed
next
  case 8
  then show ?case by simp
qed


subsubsection \<open>The output is well-formed UTF-8\<close>

lemma valid_utf8_Cons_ascii: "(of_char c :: nat) < 0x80 \<Longrightarrow> valid_utf8 (c # s) = valid_utf8 s"
  by (simp add: utf8_len_ascii)

declare valid_utf8.simps(2) [simp del]

lemma hexdigit_ascii: "n < 16 \<Longrightarrow> (of_char (hexdigit n) :: nat) < 0x80"
proof -
  assume "n < 16"
  then have "hexdigit n \<in> set ''0123456789abcdef''"
    unfolding hexdigit_def by (intro nth_mem) simp
  then show ?thesis by auto
qed

lemma escape_byte_ascii:
  assumes "(of_char b :: nat) < 0x80" and "c \<in> set (escape_byte b)"
  shows "(of_char c :: nat) < 0x80"
proof -
  have "(of_char (hexdigit (of_char b div 16)) :: nat) < 0x80"
    "(of_char (hexdigit (of_char b mod 16)) :: nat) < 0x80"
    using assms(1) by (simp_all add: hexdigit_ascii)
  with assms show ?thesis
    by (auto simp: escape_byte_def backslash_def quote_def split: if_splits)
qed

lemma valid_utf8_string_body: "valid_utf8 (string_body s)"
proof (induction s rule: string_body.induct)
  case 1
  show ?case by simp
next
  case (2 b r)
  let ?n = "utf8_len (b # r)"
  consider (ascii) "(of_char b :: nat) < 0x80"
    | (bad) "\<not> (of_char b :: nat) < 0x80" "?n = 0"
    | (ls) "\<not> (of_char b :: nat) < 0x80" "?n \<noteq> 0" "take 3 (b # r) = [CHR 0xE2, CHR 0x80, CHR 0xA8]"
    | (ps) "\<not> (of_char b :: nat) < 0x80" "?n \<noteq> 0" "take 3 (b # r) \<noteq> [CHR 0xE2, CHR 0x80, CHR 0xA8]"
        "take 3 (b # r) = [CHR 0xE2, CHR 0x80, CHR 0xA9]"
    | (seq) "\<not> (of_char b :: nat) < 0x80" "?n \<noteq> 0" "take 3 (b # r) \<noteq> [CHR 0xE2, CHR 0x80, CHR 0xA8]"
        "take 3 (b # r) \<noteq> [CHR 0xE2, CHR 0x80, CHR 0xA9]"
    by blast
  then show ?case
  proof cases
    case ascii
    have "valid_utf8 (escape_byte b)"
      using escape_byte_ascii [OF ascii] by (intro valid_utf8_ascii) blast
    then show ?thesis
      using "2.IH"(1) [OF ascii] by (simp add: string_body_ascii [OF ascii] valid_utf8_append)
  next
    case bad
    show ?thesis
      using "2.IH"(2) [OF bad]
      by (simp add: string_body_bad [OF bad] valid_utf8_Cons_ascii backslash_def)
  next
    case ls
    show ?thesis
      using "2.IH"(3) [OF ls]
      by (simp add: string_body_ls [OF ls] valid_utf8_Cons_ascii backslash_def)
  next
    case ps
    show ?thesis
      using "2.IH"(4) [OF ps]
      by (simp add: string_body_ps [OF ps] valid_utf8_Cons_ascii backslash_def)
  next
    case seq
    show ?thesis
      using "2.IH"(5) [OF seq] valid_utf8_seq [OF seq(2)]
      by (simp add: string_body_seq [OF seq] valid_utf8_append)
  qed
qed

lemma valid_utf8_encode_string: "valid_utf8 (encode_string s)"
proof -
  have "valid_utf8 (string_body s @ [quote])"
    by (intro valid_utf8_append valid_utf8_string_body) (simp add: valid_utf8_Cons_ascii quote_def)
  then show ?thesis by (simp add: encode_string_def valid_utf8_Cons_ascii quote_def)
qed

lemma valid_utf8_digits: "valid_utf8 (digits_nat n)"
proof (rule valid_utf8_ascii, rule ballI)
  fix c assume "c \<in> set (digits_nat n)"
  then have "is_digit c" by (rule digits_nat_is_digit)
  then show "(of_char c :: nat) < 0x80" by (simp add: is_digit_def)
qed

lemma valid_utf8_encode_int: "valid_utf8 (encode_int i)"
  by (simp add: encode_int_def valid_utf8_Cons_ascii valid_utf8_digits)

lemma valid_utf8_join:
  "\<forall>x\<in>set xs. valid_utf8 x \<Longrightarrow> valid_utf8 (join_with '','' xs)"
proof (induction xs)
  case Nil
  show ?case by simp
next
  case (Cons x xs)
  have "valid_utf8 (CHR '','' # join_with '','' xs)"
    using Cons by (simp add: valid_utf8_Cons_ascii)
  with Cons.prems show ?case
    by (cases "xs = []") (simp_all add: join_with_Cons valid_utf8_append)
qed

lemma valid_utf8_brackets:
  "(of_char a :: nat) < 0x80 \<Longrightarrow> (of_char z :: nat) < 0x80 \<Longrightarrow> valid_utf8 s \<Longrightarrow>
   valid_utf8 (a # s @ [z])"
proof -
  assume a: "(of_char a :: nat) < 0x80" and z: "(of_char z :: nat) < 0x80" and s: "valid_utf8 s"
  have "valid_utf8 [z]" using z by (simp add: valid_utf8_Cons_ascii)
  with s have "valid_utf8 (s @ [z])" by (rule valid_utf8_append)
  with a show ?thesis by (simp add: valid_utf8_Cons_ascii)
qed

lemma valid_utf8_enc: "valid_utf8 (enc v)"
proof (induction v rule: enc.induct)
  case (4 s)
  show ?case by (simp add: valid_utf8_encode_string)
next
  case (3 i)
  show ?case by (simp add: valid_utf8_encode_int)
next
  case (6 vs)
  then have "valid_utf8 (join_with '','' (map enc vs))"
    by (intro valid_utf8_join) simp
  then have "valid_utf8 (CHR ''['' # join_with '','' (map enc vs) @ [CHR '']''])"
    by (intro valid_utf8_brackets) simp_all
  then show ?case by simp
next
  case (7 m)
  have "\<forall>x\<in>set (map member_text (sort_key fst m)). valid_utf8 x"
  proof
    fix x assume "x \<in> set (map member_text (sort_key fst m))"
    then obtain kv where kv: "kv \<in> set (sort_key fst m)" and x: "x = member_text kv" by auto
    have "valid_utf8 (CHR '':'' # enc (snd kv))"
      using "7.IH" [OF kv] by (simp add: valid_utf8_Cons_ascii)
    then show "valid_utf8 x"
      unfolding x member_text_def using valid_utf8_encode_string [of "fst kv"]
      by (simp add: valid_utf8_append)
  qed
  then have "valid_utf8 (join_with '','' (map member_text (sort_key fst m)))"
    by (rule valid_utf8_join)
  then have "valid_utf8 (CHR ''{'' # join_with '','' (map member_text (sort_key fst m)) @ [CHR ''}''])"
    by (intro valid_utf8_brackets) simp_all
  then show ?case unfolding enc_VMap by simp
qed (simp_all add: valid_utf8_Cons_ascii)

lemma decode_enc: "encodable v \<Longrightarrow> decode (enc v) = Some (denote v)"
proof -
  assume "encodable v"
  then have "reads_back v" by (rule enc_reads_back)
  then have "parse_value (length (enc v)) (enc v @ []) = Some (denote v, [])"
    unfolding reads_back_def using stops_simps(1) by blast
  then show ?thesis by (simp add: decode_def valid_utf8_enc)
qed

subsection \<open>Format, step by step\<close>

lemma Format_eq:
  "Format f rt stackSkips entry =
     (if withSourceInfo f then
        (case getSkipLevel rt stackSkips (Level entry) of
           (Inl err, c') \<Rightarrow> (Inl err, c')
         | (Inr skip, c') \<Rightarrow> (marshal_line (final_data rt skip entry), c'))
      else (marshal_line (base_data entry), stackSkips))"
  by (simp add: Format_def Let_def base_data_def final_data_def source_value_def marshal_line_def
      split: prod.splits sum.splits option.splits)

lemma marshal_line_cases:
  "marshal_line data =
     (if encodable (VMap data) then Inr (enc (VMap data) @ [LF])
      else Inl (ErrMarshal UnsupportedTypeError))"
  by (simp add: marshal_line_def Marshal_def)

lemma Format_Inr:
  assumes "Format f rt stackSkips entry = (Inr out, c')"
  shows "out = enc (VMap (marshalled f rt stackSkips entry)) @ [LF]"
    and "encodable (VMap (marshalled f rt stackSkips entry))"
  using assms
  by (auto simp: Format_eq marshalled_def marshal_line_cases
      split: if_splits prod.splits sum.splits)

lemma Format_Inl:
  assumes "Format f rt stackSkips entry = (Inl err, c')"
  shows "(withSourceInfo f \<and> getSkipLevel rt stackSkips (Level entry) = (Inl err, c'))
    \<or> (err = ErrMarshal UnsupportedTypeError \<and> \<not> encodable (VMap (marshalled f rt stackSkips entry)))"
  using assms
  by (auto simp: Format_eq marshalled_def marshal_line_cases
      split: if_splits prod.splits sum.splits)

lemma getSkipLevel_Inl:
  "getSkipLevel rt stackSkips level = (Inl err, c') \<Longrightarrow>
   err = ErrSkipNotFound \<and> c' = stackSkips \<and> stackSkips level = None"
  by (auto simp: getSkipLevel_def Let_def split: option.splits)

subsubsection \<open>The field set\<close>

lemma distinct_copy_fields:
  "distinct (map fst data) \<Longrightarrow> distinct (map fst (copy_fields d data))"
  by (induction d data rule: copy_fields.induct) (simp_all add: distinct_update)

lemma map_of_copy_fields:
  "distinct (map fst d) \<Longrightarrow>
   map_of (copy_fields d data) k =
     (case map_of d k of Some v \<Rightarrow> Some (coerce v) | None \<Rightarrow> map_of data k)"
proof (induction d data rule: copy_fields.induct)
  case (1 data)
  show ?case by simp
next
  case (2 k0 v0 kvs data)
  have "map_of kvs k0 = None"
    using "2.prems" by (simp add: map_of_eq_None_iff)
  with "2.IH" "2.prems" show ?case
    by (auto simp: update_conv' split: option.splits)
qed

lemma encodable_coerce: "encodable (coerce v) = encodable v"
  by (cases v) simp_all

lemma encodable_update:
  "list_all (\<lambda>kv. encodable (snd kv)) al \<Longrightarrow> encodable v \<Longrightarrow>
   list_all (\<lambda>kv. encodable (snd kv)) (AList.update k v al)"
  by (induction al) auto

lemma encodable_copy_fields:
  "list_all (\<lambda>kv. encodable (snd kv)) d \<Longrightarrow> list_all (\<lambda>kv. encodable (snd kv)) data \<Longrightarrow>
   list_all (\<lambda>kv. encodable (snd kv)) (copy_fields d data)"
  by (induction d data rule: copy_fields.induct)
     (simp_all add: encodable_update encodable_coerce)

lemma distinct_base_data: "distinct (map fst (base_data entry))"
  by (simp add: base_data_def distinct_update distinct_copy_fields)

lemma distinct_final_data: "distinct (map fst (final_data rt skip entry))"
  by (simp add: final_data_def distinct_update distinct_base_data split: option.splits)

lemma distinct_marshalled: "distinct (map fst (marshalled f rt stackSkips entry))"
  by (simp add: marshalled_def distinct_final_data distinct_base_data split: sum.splits)

lemma encodable_base_data:
  "list_all (\<lambda>kv. encodable (snd kv)) (Data entry) \<Longrightarrow> encodable (VMap (base_data entry))"
  by (simp add: base_data_def encodable_update encodable_copy_fields)

lemma encodable_final_data:
  "list_all (\<lambda>kv. encodable (snd kv)) (Data entry) \<Longrightarrow> encodable (VMap (final_data rt skip entry))"
  using encodable_base_data [of entry]
  by (auto simp: final_data_def source_value_def intro: encodable_update split: option.splits)

lemma encodable_marshalled:
  "list_all (\<lambda>kv. encodable (snd kv)) (Data entry) \<Longrightarrow>
   encodable (VMap (marshalled f rt stackSkips entry))"
  using encodable_base_data [of entry] encodable_final_data [of entry]
  by (simp add: marshalled_def split: sum.splits)

lemma map_of_base_data:
  "distinct (map fst (Data entry)) \<Longrightarrow>
   map_of (base_data entry) k =
     (if k = ''message'' then Some (VString (Message entry))
      else if k = ''severity'' then Some (VString (severity_index (Level entry)))
      else if k = ''time'' then Some (VString (Format_RFC3339Nano (Time entry)))
      else map_option coerce (map_of (Data entry) k))"
  by (simp add: base_data_def update_conv' map_of_copy_fields split: option.splits)

lemma map_of_base_data_reserved:
  "map_of (base_data entry) ''message'' = Some (VString (Message entry))"
  "map_of (base_data entry) ''severity'' = Some (VString (severity_index (Level entry)))"
  "map_of (base_data entry) ''time'' = Some (VString (Format_RFC3339Nano (Time entry)))"
  by (simp_all add: base_data_def update_conv')

lemma map_of_final_data:
  "map_of (final_data rt skip entry) k =
     (case runtime_Caller (stack rt) skip of
        Some fr \<Rightarrow> if k = sourceLocation_key then Some (source_value rt fr)
                  else map_of (base_data entry) k
      | None \<Rightarrow> map_of (base_data entry) k)"
  by (simp add: final_data_def update_conv' split: option.splits)


subsubsection \<open>The decoded line\<close>

lemma decode_line_marshal:
  "encodable (VMap data) \<Longrightarrow>
   decode_line (enc (VMap data) @ [LF]) = Some (JObj (map member_json (sort_key fst data)))"
  using decode_enc [of "VMap data", unfolded denote_VMap]
  by (simp add: decode_line_def del: enc.simps denote.simps encodable.simps)

lemma output_members_eq:
  assumes "Format f rt stackSkips entry = (Inr out, c')"
  shows "output_members f rt stackSkips entry
      = map member_json (sort_key fst (marshalled f rt stackSkips entry))"
  using Format_Inr [OF assms] assms
  by (simp add: output_members_def decode_line_marshal del: enc.simps encodable.simps)

lemma sanitize_ascii_inv:
  "\<forall>c\<in>set (sanitize s). (of_char c :: nat) < 0x80 \<Longrightarrow> \<forall>c\<in>set s. (of_char c :: nat) < 0x80"
proof (induction s rule: sanitize.induct)
  case 1
  show ?case by simp
next
  case (2 b r)
  show ?case
  proof (cases "utf8_len (b # r) = 0")
    case True
    with "2.prems" show ?thesis by (simp add: sanitize_bad)
  next
    case False
    let ?n = "utf8_len (b # r)"
    have split: "sanitize (b # r) = take ?n (b # r) @ sanitize (drop (?n - 1) r)"
      by (rule sanitize_seq [OF False])
    have "b \<in> set (take ?n (b # r))" using False by (cases ?n) simp_all
    then have b: "(of_char b :: nat) < 0x80" using "2.prems" split by simp
    then have n: "?n = 1" by (rule utf8_len_ascii)
    have "\<forall>c\<in>set (sanitize r). (of_char c :: nat) < 0x80"
      using "2.prems" split n by simp
    then have "\<forall>c\<in>set r. (of_char c :: nat) < 0x80"
      using "2.IH"(2) [OF False] n by simp
    with b show ?thesis by simp
  qed
qed

lemma sanitize_ascii: "\<forall>c\<in>set s. (of_char c :: nat) < 0x80 \<Longrightarrow> sanitize s = s"
  by (rule sanitize_valid, rule valid_utf8_ascii)

lemma sanitize_eq_ascii:
  assumes "\<forall>c\<in>set k. (of_char c :: nat) < 0x80" and "sanitize k' = k"
  shows "k' = k"
proof -
  have "\<forall>c\<in>set (sanitize k'). (of_char c :: nat) < 0x80"
    unfolding assms(2) by (rule assms(1))
  then have "\<forall>c\<in>set k'. (of_char c :: nat) < 0x80"
    by (rule sanitize_ascii_inv)
  then have "sanitize k' = k'" by (rule sanitize_ascii)
  with assms(2) show ?thesis by simp
qed

lemma member_json_pair: "member_json (a, b) = (sanitize a, denote b)"
  by (simp add: member_json_def)

lemma map_of_member_json:
  assumes "sanitize k = k" and "\<forall>kv\<in>set ms. sanitize (fst kv) = k \<longrightarrow> fst kv = k"
  shows "map_of (map member_json ms) k = map_option denote (map_of ms k)"
  using assms(2)
proof (induction ms)
  case Nil
  show ?case by simp
next
  case (Cons kv ms)
  have IH: "map_of (map member_json ms) k = map_option denote (map_of ms k)"
    using Cons by simp
  show ?case
  proof (cases "fst kv = k")
    case True
    then have "sanitize (fst kv) = k" using assms(1) by simp
    with True show ?thesis by (cases kv) (simp add: member_json_pair)
  next
    case False
    then have "sanitize (fst kv) \<noteq> k" using Cons.prems by auto
    with False IH show ?thesis by (cases kv) (simp add: member_json_pair)
  qed
qed

lemma map_of_member_json_ascii:
  assumes "\<forall>c\<in>set k. (of_char c :: nat) < 0x80"
  shows "map_of (map member_json ms) k = map_option denote (map_of ms k)"
proof (rule map_of_member_json)
  show "sanitize k = k" using assms by (rule sanitize_ascii)
  show "\<forall>kv\<in>set ms. sanitize (fst kv) = k \<longrightarrow> fst kv = k"
    using sanitize_eq_ascii [OF assms] by blast
qed

lemma map_of_sort_key: "distinct (map fst al) \<Longrightarrow> map_of (sort_key fst al) = map_of al"
proof -
  assume d: "distinct (map fst al)"
  then have "distinct (map fst (sort_key fst al))" by (simp add: distinct_map)
  from map_of_inject_set [OF this d] show ?thesis by simp
qed

lemma emitted_ascii:
  assumes "Format f rt stackSkips entry = (Inr out, c')"
    and "\<forall>c\<in>set k. (of_char c :: nat) < 0x80"
  shows "emitted f rt stackSkips entry k
      = map_option denote (map_of (marshalled f rt stackSkips entry) k)"
  by (simp add: emitted_def output_members_eq [OF assms(1)] map_of_member_json_ascii [OF assms(2)]
      map_of_sort_key distinct_marshalled)

lemma output_member:
  assumes "Format f rt stackSkips entry = (Inr out, c')"
    and "map_of (marshalled f rt stackSkips entry) k = Some v"
  shows "(sanitize k, denote v) \<in> set (output_members f rt stackSkips entry)"
proof -
  have "(k, v) \<in> set (marshalled f rt stackSkips entry)" using assms(2) by (rule map_of_SomeD)
  then have "member_json (k, v) \<in> member_json ` set (sort_key fst (marshalled f rt stackSkips entry))"
    by simp
  then show ?thesis by (simp add: output_members_eq [OF assms(1)] member_json_def)
qed

lemma denote_clean: "utf8_clean v \<Longrightarrow> denote v = json_of v"
proof (induction v rule: enc.induct)
  case (4 s)
  then show ?case by (simp add: sanitize_valid)
next
  case (6 vs)
  then show ?case by (simp add: list_all_iff)
next
  case (7 m)
  have "map (\<lambda>kv. (sanitize (fst kv), denote (snd kv))) (sort_key fst m)
      = map (\<lambda>kv. (fst kv, json_of (snd kv))) (sort_key fst m)"
  proof (rule map_cong [OF refl])
    fix kv assume kv: "kv \<in> set (sort_key fst m)"
    then have "valid_utf8 (fst kv)" "utf8_clean (snd kv)"
      using "7.prems" by (simp_all add: list_all_iff)
    with "7.IH" [OF kv] show "(sanitize (fst kv), denote (snd kv)) = (fst kv, json_of (snd kv))"
      by (simp add: sanitize_valid)
  qed
  then show ?case by simp
qed simp_all

subsubsection \<open>Strings that are plain ASCII\<close>

lemma reserved_keys_ascii:
  "\<forall>c\<in>set ''time''. (of_char c :: nat) < 0x80"
  "\<forall>c\<in>set ''severity''. (of_char c :: nat) < 0x80"
  "\<forall>c\<in>set ''message''. (of_char c :: nat) < 0x80"
  "\<forall>c\<in>set sourceLocation_key. (of_char c :: nat) < 0x80"
  by (simp_all add: sourceLocation_key_def)

lemma sourceLocation_key_neq:
  "sourceLocation_key \<noteq> ''time''" "sourceLocation_key \<noteq> ''severity''"
  "sourceLocation_key \<noteq> ''message''"
  by (simp_all add: sourceLocation_key_def)

lemma severity_index_cases:
  "severity_index l \<in> {severityDEBUG, severityINFO, severityWARNING, severityERROR,
      severityCRITICAL, severityALERT} \<or> (levelsLogrusToGCE l = None \<and> severity_index l = [])"
  by (auto simp: severity_index_def levelsLogrusToGCE_def)

lemma severity_index_ascii: "\<forall>c\<in>set (severity_index l). (of_char c :: nat) < 0x80"
  using severity_index_cases [of l] by (auto simp: severity_defs)

lemma digits_nat_ascii: "c \<in> set (digits_nat n) \<Longrightarrow> (of_char c :: nat) < 0x80"
  using digits_nat_is_digit [of c n] by (simp add: is_digit_def)

lemma appendInt_ascii: "c \<in> set (appendInt x w) \<Longrightarrow> (of_char c :: nat) < 0x80"
  by (auto simp: appendInt_def Let_def dest: digits_nat_ascii split: if_splits)

lemma formatNano_ascii: "c \<in> set (formatNano n) \<Longrightarrow> (of_char c :: nat) < 0x80"
  by (auto simp: formatNano_def Let_def dest!: set_dropWhileD dest: appendInt_ascii split: if_splits)

lemma formatZone_ascii: "c \<in> set (formatZone z) \<Longrightarrow> (of_char c :: nat) < 0x80"
  by (auto simp: formatZone_def Let_def dest: appendInt_ascii split: if_splits)

lemma Format_RFC3339Nano_ascii: "\<forall>c\<in>set (Format_RFC3339Nano t). (of_char c :: nat) < 0x80"
  by (auto simp: Format_RFC3339Nano_def dest: appendInt_ascii formatNano_ascii formatZone_ascii)

subsubsection \<open>What the output holds\<close>

lemma Format_plain:
  "\<not> withSourceInfo f \<Longrightarrow> list_all (\<lambda>kv. encodable (snd kv)) (Data entry) \<Longrightarrow>
   Format f rt stackSkips entry = (Inr (enc (VMap (base_data entry)) @ [LF]), stackSkips)"
  using encodable_base_data [of entry] by (simp add: Format_eq marshal_line_cases del: encodable.simps enc.simps)


lemma emitted_reserved:
  assumes "Format f rt stackSkips entry = (Inr out, c')"
  shows "emitted f rt stackSkips entry ''message'' = Some (JStr (sanitize (Message entry)))"
    and "emitted f rt stackSkips entry ''severity'' = Some (JStr (severity_index (Level entry)))"
    and "emitted f rt stackSkips entry ''time'' = Some (JStr (Format_RFC3339Nano (Time entry)))"
proof -
  have m: "map_of (marshalled f rt stackSkips entry) ''message'' = Some (VString (Message entry))"
    "map_of (marshalled f rt stackSkips entry) ''severity'' = Some (VString (severity_index (Level entry)))"
    "map_of (marshalled f rt stackSkips entry) ''time'' = Some (VString (Format_RFC3339Nano (Time entry)))"
    using sourceLocation_key_neq
    by (auto simp: marshalled_def map_of_final_data map_of_base_data_reserved
        split: sum.splits option.splits)
  show "emitted f rt stackSkips entry ''message'' = Some (JStr (sanitize (Message entry)))"
    by (simp add: emitted_ascii [OF assms reserved_keys_ascii(3)] m)
  show "emitted f rt stackSkips entry ''severity'' = Some (JStr (severity_index (Level entry)))"
    by (simp add: emitted_ascii [OF assms reserved_keys_ascii(2)] m
        sanitize_ascii [OF severity_index_ascii])
  show "emitted f rt stackSkips entry ''time'' = Some (JStr (Format_RFC3339Nano (Time entry)))"
    by (simp add: emitted_ascii [OF assms reserved_keys_ascii(1)] m
        sanitize_ascii [OF Format_RFC3339Nano_ascii])
qed

lemma levels_distinct:
  "levelsLogrusToGCE DebugLevel = Some severityDEBUG"
  "levelsLogrusToGCE InfoLevel = Some severityINFO"
  "levelsLogrusToGCE WarnLevel = Some severityWARNING"
  "levelsLogrusToGCE ErrorLevel = Some severityERROR"
  "levelsLogrusToGCE FatalLevel = Some severityCRITICAL"
  "levelsLogrusToGCE PanicLevel = Some severityALERT"
  "levelsLogrusToGCE TraceLevel = None"
  by (simp_all add: levelsLogrusToGCE_def Level_defs)

lemma dom_levels:
  "dom levelsLogrusToGCE = {DebugLevel, InfoLevel, WarnLevel, ErrorLevel, FatalLevel, PanicLevel}"
  by (auto simp: levelsLogrusToGCE_def split: if_splits)

lemma severity_index_mapped:
  "l \<in> dom levelsLogrusToGCE \<Longrightarrow>
   severity_index l \<in> {severityDEBUG, severityINFO, severityWARNING, severityERROR,
      severityCRITICAL, severityALERT}"
  using severity_index_cases [of l] by auto

lemma severity_index_unmapped: "l \<notin> dom levelsLogrusToGCE \<Longrightarrow> severity_index l = []"
  by (auto simp: severity_index_def split: option.splits)

lemma severity_index_not_reserved:
  "severity_index l \<noteq> severityNOTICE" "severity_index l \<noteq> severityEMERGENCY"
  using severity_index_cases [of l] by (auto simp: severity_defs)

subsection \<open>The claims about the output\<close>

lemma sample_fields_encodable:
  "list_all (\<lambda>kv. encodable (snd kv)) (Data demo_entry)"
  "list_all (\<lambda>kv. encodable (snd kv)) (Data trace_entry)"
  "list_all (\<lambda>kv. encodable (snd kv)) (Data clash_entry)"
  "list_all (\<lambda>kv. encodable (snd kv)) (Data latin1_entry)"
  "list_all (\<lambda>kv. encodable (snd kv)) (Data own_source_entry)"
  "list_all (\<lambda>kv. encodable (snd kv)) (Data error_entry)"
  by (simp_all add: demo_entry_def trace_entry_def clash_entry_def latin1_entry_def
      own_source_entry_def error_entry_def)

lemma plain_formatter: "\<not> withSourceInfo (NewGCEFormatter False)"
  by (simp add: NewGCEFormatter_def)


text \<open>
  C1, as amended. The table maps Debug to DEBUG, Info to INFO, Warn to WARNING, Error
  to ERROR, Fatal to CRITICAL and Panic to ALERT, and has no other entry. In every
  output line the severity is the table's value for the entry's level: one of these six
  for the six levels of the table, the empty string for any other level; it is never
  NOTICE or EMERGENCY.
\<close>

theorem C1_severity_mapping:
  "levelsLogrusToGCE DebugLevel = Some severityDEBUG
   \<and> levelsLogrusToGCE InfoLevel = Some severityINFO
   \<and> levelsLogrusToGCE WarnLevel = Some severityWARNING
   \<and> levelsLogrusToGCE ErrorLevel = Some severityERROR
   \<and> levelsLogrusToGCE FatalLevel = Some severityCRITICAL
   \<and> levelsLogrusToGCE PanicLevel = Some severityALERT
   \<and> dom levelsLogrusToGCE = {DebugLevel, InfoLevel, WarnLevel, ErrorLevel, FatalLevel, PanicLevel}
   \<and> (Format f rt stackSkips entry = (Inr out, c') \<longrightarrow>
        emitted f rt stackSkips entry ''severity'' = Some (JStr (severity_index (Level entry)))
        \<and> (Level entry \<in> dom levelsLogrusToGCE \<longrightarrow>
             severity_index (Level entry) \<in> {severityDEBUG, severityINFO, severityWARNING,
               severityERROR, severityCRITICAL, severityALERT})
        \<and> (Level entry \<notin> dom levelsLogrusToGCE \<longrightarrow> severity_index (Level entry) = [])
        \<and> severity_index (Level entry) \<noteq> severityNOTICE
        \<and> severity_index (Level entry) \<noteq> severityEMERGENCY)"
  by (intro conjI impI levels_distinct dom_levels emitted_reserved(2) severity_index_mapped
      severity_index_unmapped severity_index_not_reserved)

theorem C1_severity_mapping_witness:
  "Format (NewGCEFormatter False) demo_rt Map.empty demo_entry
     = (Inr (enc (VMap (base_data demo_entry)) @ [LF]), Map.empty)
   \<and> emitted (NewGCEFormatter False) demo_rt Map.empty demo_entry ''severity''
     = Some (JStr severityINFO)"
proof -
  have run: "Format (NewGCEFormatter False) demo_rt Map.empty demo_entry
      = (Inr (enc (VMap (base_data demo_entry)) @ [LF]), Map.empty)"
    by (rule Format_plain [OF plain_formatter sample_fields_encodable(1)])
  have "severity_index (Level demo_entry) = severityINFO"
    by (simp add: severity_index_def demo_entry_def levels_distinct)
  with C1_severity_mapping [of "NewGCEFormatter False" demo_rt Map.empty demo_entry
      "enc (VMap (base_data demo_entry)) @ [LF]" Map.empty] run
  show ?thesis by simp
qed

text \<open>
  The claim as stated fails for a level outside the table: an entry at \<open>TraceLevel\<close> is
  formatted, and its severity is the empty string, which is none of the six values.
\<close>

theorem C1_counterexample:
  "\<not> isl (fst (Format (NewGCEFormatter False) demo_rt Map.empty trace_entry))
   \<and> emitted (NewGCEFormatter False) demo_rt Map.empty trace_entry ''severity'' = Some (JStr [])
   \<and> [] \<notin> {severityDEBUG, severityINFO, severityWARNING, severityERROR, severityCRITICAL,
        severityALERT}"
proof -
  have run: "Format (NewGCEFormatter False) demo_rt Map.empty trace_entry
      = (Inr (enc (VMap (base_data trace_entry)) @ [LF]), Map.empty)"
    by (rule Format_plain [OF plain_formatter sample_fields_encodable(2)])
  have "severity_index (Level trace_entry) = []"
    by (simp add: severity_index_def trace_entry_def levels_distinct)
  with emitted_reserved(2) [OF run] run show ?thesis by (simp add: severity_defs)
qed

text \<open>
  C6. For an entry whose level is not in the table, \<open>Format\<close> fails only for the reasons
  it fails for any entry (\<open>getSkipLevel\<close> found no depth, or a field value that
  \<open>json.Marshal\<close> rejects); without source info and with marshallable field values it
  succeeds; and the severity in its output is the empty string. For every entry the
  severity in the output is one of the six values of the table or the empty string.
\<close>

theorem C6_unmapped_severity:
  "(levelsLogrusToGCE (Level entry) = None \<longrightarrow>
      (\<forall>err c'. Format f rt stackSkips entry = (Inl err, c') \<longrightarrow>
         (err = ErrSkipNotFound \<and> withSourceInfo f \<and> stackSkips (Level entry) = None)
         \<or> (err = ErrMarshal UnsupportedTypeError
             \<and> \<not> list_all (\<lambda>kv. encodable (snd kv)) (Data entry)))
      \<and> (\<not> withSourceInfo f \<and> list_all (\<lambda>kv. encodable (snd kv)) (Data entry) \<longrightarrow>
           \<not> isl (fst (Format f rt stackSkips entry)))
      \<and> (\<forall>out c'. Format f rt stackSkips entry = (Inr out, c') \<longrightarrow>
           emitted f rt stackSkips entry ''severity'' = Some (JStr [])))
   \<and> (\<forall>out c'. Format f rt stackSkips entry = (Inr out, c') \<longrightarrow>
        (\<exists>s. emitted f rt stackSkips entry ''severity'' = Some (JStr s)
           \<and> s \<in> {severityDEBUG, severityINFO, severityWARNING, severityERROR, severityCRITICAL,
                 severityALERT, []}))"
proof (intro conjI impI allI)
  fix err c'
  assume "Format f rt stackSkips entry = (Inl err, c')"
  from Format_Inl [OF this] encodable_marshalled [of entry f rt stackSkips]
  show "(err = ErrSkipNotFound \<and> withSourceInfo f \<and> stackSkips (Level entry) = None)
      \<or> (err = ErrMarshal UnsupportedTypeError
          \<and> \<not> list_all (\<lambda>kv. encodable (snd kv)) (Data entry))"
    by (auto dest: getSkipLevel_Inl)
next
  assume "\<not> withSourceInfo f \<and> list_all (\<lambda>kv. encodable (snd kv)) (Data entry)"
  then have "Format f rt stackSkips entry
      = (Inr (enc (VMap (base_data entry)) @ [LF]), stackSkips)"
    by (intro Format_plain) simp_all
  then show "\<not> isl (fst (Format f rt stackSkips entry))" by simp
next
  fix out c'
  assume unmapped: "levelsLogrusToGCE (Level entry) = None"
    and run: "Format f rt stackSkips entry = (Inr out, c')"
  from unmapped have "severity_index (Level entry) = []" by (simp add: severity_index_def)
  with emitted_reserved(2) [OF run]
  show "emitted f rt stackSkips entry ''severity'' = Some (JStr [])" by simp
next
  fix out c'
  assume run: "Format f rt stackSkips entry = (Inr out, c')"
  from emitted_reserved(2) [OF run] severity_index_cases [of "Level entry"]
  show "\<exists>s. emitted f rt stackSkips entry ''severity'' = Some (JStr s)
      \<and> s \<in> {severityDEBUG, severityINFO, severityWARNING, severityERROR, severityCRITICAL,
            severityALERT, []}"
    by auto
qed

theorem C6_unmapped_severity_witness:
  "levelsLogrusToGCE (Level trace_entry) = None
   \<and> \<not> isl (fst (Format (NewGCEFormatter False) demo_rt Map.empty trace_entry))
   \<and> emitted (NewGCEFormatter False) demo_rt Map.empty trace_entry ''severity'' = Some (JStr [])"
proof -
  have unmapped: "levelsLogrusToGCE (Level trace_entry) = None"
    by (simp add: trace_entry_def levels_distinct)
  note c6 = C6_unmapped_severity [of trace_entry "NewGCEFormatter False" demo_rt Map.empty]
  from c6 unmapped have ok: "\<not> isl (fst (Format (NewGCEFormatter False) demo_rt Map.empty trace_entry))"
    using plain_formatter sample_fields_encodable(2) by blast
  then obtain out c' where run: "Format (NewGCEFormatter False) demo_rt Map.empty trace_entry = (Inr out, c')"
    by (cases "Format (NewGCEFormatter False) demo_rt Map.empty trace_entry";
        cases "fst (Format (NewGCEFormatter False) demo_rt Map.empty trace_entry)") auto
  from c6 unmapped run
  have "emitted (NewGCEFormatter False) demo_rt Map.empty trace_entry ''severity'' = Some (JStr [])"
    by blast
  with unmapped ok show ?thesis by blast
qed



lemma output_member_ascii:
  assumes "Format f rt stackSkips entry = (Inr out, c')"
    and "\<forall>c\<in>set k. (of_char c :: nat) < 0x80"
  shows "(k, j) \<in> set (output_members f rt stackSkips entry)
    \<longleftrightarrow> emitted f rt stackSkips entry k = Some j"
proof -
  let ?data = "marshalled f rt stackSkips entry"
  have d: "distinct (map fst ?data)" by (rule distinct_marshalled)
  have "(k, j) \<in> set (output_members f rt stackSkips entry)
      \<longleftrightarrow> (\<exists>kv\<in>set ?data. sanitize (fst kv) = k \<and> denote (snd kv) = j)"
    by (auto simp: output_members_eq [OF assms(1)] member_json_def)
  also have "\<dots> \<longleftrightarrow> (\<exists>v. (k, v) \<in> set ?data \<and> denote v = j)"
    using sanitize_eq_ascii [OF assms(2)] sanitize_ascii [OF assms(2)] by force
  also have "\<dots> \<longleftrightarrow> (\<exists>v. map_of ?data k = Some v \<and> denote v = j)"
    using d by simp
  also have "\<dots> \<longleftrightarrow> emitted f rt stackSkips entry k = Some j"
    by (auto simp: emitted_ascii [OF assms])
  finally show ?thesis .
qed

lemma marshalled_copied:
  assumes "distinct (map fst (Data entry))" and "k \<notin> overwritten f rt stackSkips entry"
  shows "map_of (marshalled f rt stackSkips entry) k = map_option coerce (map_of (Data entry) k)"
  using assms(2)
  by (auto simp: overwritten_def marshalled_def map_of_final_data map_of_base_data [OF assms(1)]
      split: if_splits sum.splits option.splits)









end
